theory Spec2Isabelle
  imports Main "HOL-Library.Word"
begin

unbundle bit_operations_syntax

section \<open>Machine types and constants (pcap_reader.h)\<close>

type_synonym byte = "8 word"
type_synonym uint16 = "16 word"
type_synonym uint32 = "32 word"
type_synonym uint64 = "64 word"

definition PCAP_MAGIC_NATIVE :: uint32 where
  "PCAP_MAGIC_NATIVE = 0xa1b2c3d4"

definition PCAP_MAGIC_SWAPPED :: uint32 where
  "PCAP_MAGIC_SWAPPED = 0xd4c3b2a1"

definition PCAP_MAGIC_NANO_NATIVE :: uint32 where
  "PCAP_MAGIC_NANO_NATIVE = 0xa1b23c4d"

definition PCAP_MAGIC_NANO_SWAPPED :: uint32 where
  "PCAP_MAGIC_NANO_SWAPPED = 0x4d3cb2a1"

text \<open>
  \<^verbatim>\<open>pcap_file_header_t\<close> (24 bytes, no padding) and \<^verbatim>\<open>pcap_packet_header_t\<close>
  (16 bytes). \<^verbatim>\<open>thiszone\<close> is an \<^verbatim>\<open>int32_t\<close>; it is kept as its 32-bit pattern.
\<close>

record pcap_file_header_t =
  magic_number :: uint32
  version_major :: uint16
  version_minor :: uint16
  thiszone :: uint32
  sigfigs :: uint32
  snaplen :: uint32
  network :: uint32

record pcap_packet_header_t =
  ts_sec :: uint32
  ts_usec :: uint32
  caplen :: uint32
  len :: uint32

section \<open>Memory representation of integers\<close>

text \<open>
  The reader fills its structs with \<^verbatim>\<open>fread\<close>, so every field is the host's reading of
  the bytes of the file. The host byte order is a parameter of the model.
\<close>

datatype endianness = LittleEndian | BigEndian

fun le_word :: "byte list \<Rightarrow> 'a::len word" where
  "le_word [] = 0"
| "le_word (b # bs) = ucast b OR push_bit 8 (le_word bs)"

definition load16 :: "endianness \<Rightarrow> byte list \<Rightarrow> uint16" where
  "load16 e bs = (case e of LittleEndian \<Rightarrow> le_word bs | BigEndian \<Rightarrow> le_word (rev bs))"

definition load32 :: "endianness \<Rightarrow> byte list \<Rightarrow> uint32" where
  "load32 e bs = (case e of LittleEndian \<Rightarrow> le_word bs | BigEndian \<Rightarrow> le_word (rev bs))"

definition slice :: "nat \<Rightarrow> nat \<Rightarrow> 'a list \<Rightarrow> 'a list" where
  "slice off n xs = take n (drop off xs)"

definition load_file_header :: "endianness \<Rightarrow> byte list \<Rightarrow> pcap_file_header_t" where
  "load_file_header e bs =
     \<lparr> magic_number = load32 e (slice 0 4 bs),
       version_major = load16 e (slice 4 2 bs),
       version_minor = load16 e (slice 6 2 bs),
       thiszone = load32 e (slice 8 4 bs),
       sigfigs = load32 e (slice 12 4 bs),
       snaplen = load32 e (slice 16 4 bs),
       network = load32 e (slice 20 4 bs) \<rparr>"

definition load_packet_header :: "endianness \<Rightarrow> byte list \<Rightarrow> pcap_packet_header_t" where
  "load_packet_header e bs =
     \<lparr> ts_sec = load32 e (slice 0 4 bs),
       ts_usec = load32 e (slice 4 4 bs),
       caplen = load32 e (slice 8 4 bs),
       len = load32 e (slice 12 4 bs) \<rparr>"

section \<open>swap32\<close>

definition swap32 :: "uint32 \<Rightarrow> uint32" where
  "swap32 v =
     drop_bit 24 (v AND 0xFF000000) OR
     drop_bit 8 (v AND 0x00FF0000) OR
     push_bit 8 (v AND 0x0000FF00) OR
     push_bit 24 (v AND 0x000000FF)"

section \<open>Timestamp conversion (PcapReaderFunction, lines 261-270)\<close>

definition timestamp_ns_of :: "bool \<Rightarrow> pcap_packet_header_t \<Rightarrow> uint64" where
  "timestamp_ns_of nano ph =
     (if nano
      then (ucast (ts_sec ph) :: uint64) * 1000000000 + (ucast (ts_usec ph) :: uint64)
      else (ucast (ts_sec ph) :: uint64) * 1000000000 + (ucast (ts_usec ph) :: uint64) * 1000)"

section \<open>The C library: streams and allocation\<close>

text \<open>
  A \<^verbatim>\<open>FILE\<close> opened for reading: the bytes not yet consumed and the end-of-file
  indicator. Read errors other than end of input are outside the model.
\<close>

record c_file =
  unread :: "byte list"
  eof_ind :: bool

definition feof :: "c_file \<Rightarrow> bool" where
  "feof f = eof_ind f"

text \<open>
  \<^verbatim>\<open>fread(ptr, size, nmemb, stream)\<close>: the bytes stored, the number of complete
  items, and the stream afterwards. A request of zero bytes leaves the stream
  untouched; a request beyond the end consumes what is left and sets the indicator.
\<close>

definition fread :: "nat \<Rightarrow> nat \<Rightarrow> c_file \<Rightarrow> byte list \<times> nat \<times> c_file" where
  "fread sz nmemb f =
     (if sz * nmemb = 0 then ([], 0, f)
      else if sz * nmemb \<le> length (unread f)
      then (take (sz * nmemb) (unread f), nmemb,
            f\<lparr>unread := drop (sz * nmemb) (unread f)\<rparr>)
      else (unread f, length (unread f) div sz, f\<lparr>unread := [], eof_ind := True\<rparr>))"

text \<open>
  The allocator is an oracle of the environment: \<open>h i n\<close> tells whether the \<open>i\<close>-th
  call from now on, asking for \<open>n\<close> bytes, returns a non-null pointer.
  \<^verbatim>\<open>duckdb_malloc\<close> forwards to \<^verbatim>\<open>malloc\<close>, for which C leaves the result of a
  zero-byte request to the implementation (null, or a pointer that must not be
  dereferenced), so \<open>h i 0\<close> may be either.
\<close>

type_synonym heap = "nat \<Rightarrow> nat \<Rightarrow> bool"

definition duckdb_malloc :: "nat \<Rightarrow> heap \<Rightarrow> bool \<times> heap" where
  "duckdb_malloc n h = (h 0 n, \<lambda>i. h (Suc i))"

text \<open>What the process can open: named files, and standard input.\<close>

record world =
  host_order :: endianness
  files :: "string \<Rightarrow> byte list option"
  stdin_stream :: c_file

definition fopen_rb :: "world \<Rightarrow> string \<Rightarrow> c_file option" where
  "fopen_rb w path =
     (case files w path of None \<Rightarrow> None
      | Some bs \<Rightarrow> Some \<lparr>unread = bs, eof_ind = False\<rparr>)"

text \<open>
  C strings: a \<open>string\<close> stands for its characters followed by the terminating NUL;
  \<open>c_str\<close> is what C sees of it, \<open>char_at\<close> the character at the head of the rest.
\<close>

definition c_str :: "string \<Rightarrow> string" where
  "c_str s = takeWhile (\<lambda>c. c \<noteq> CHR 0x00) s"

definition char_at :: "string \<Rightarrow> char" where
  "char_at s = (case s of [] \<Rightarrow> CHR 0x00 | c # _ \<Rightarrow> c)"

fun strncmp :: "string \<Rightarrow> string \<Rightarrow> nat \<Rightarrow> int" where
  "strncmp s1 s2 0 = 0"
| "strncmp s1 s2 (Suc n) =
     (if char_at s1 \<noteq> char_at s2
      then int (of_char (char_at s1)) - int (of_char (char_at s2))
      else if char_at s1 = CHR 0x00 then 0
      else strncmp (tl s1) (tl s2) n)"

section \<open>Reader state\<close>

datatype error =
    MissingInput        \<comment> \<open>"Filename parameter is required"\<close>
  | AllocationFailure   \<comment> \<open>"Failed to allocate ..."\<close>
  | OpenFailure         \<comment> \<open>"Failed to open pcap file"\<close>
  | TruncatedHeader     \<comment> \<open>"Failed to read pcap file header"\<close>
  | UnsupportedMagic    \<comment> \<open>"Invalid pcap file magic number"\<close>

text \<open>
  \<^verbatim>\<open>pcap_reader_state_t\<close> as PcapReaderInit registers it. The state is registered
  only after the stream was opened and the buffer allocation returned non-null, and
  the read loop replaces the buffer only by a non-null one, so \<open>stream\<close> and
  \<open>packet_buffer\<close> are the objects pointed to, and the null checks on them (lines
  50, 53 and 226) always pass for a registered state. A fresh buffer holds
  indeterminate bytes, written here as zeros; they are never read before being
  overwritten. \<^verbatim>\<open>buffer_size\<close> is a \<^verbatim>\<open>size_t\<close> that only ever holds 32-bit values.
\<close>

record pcap_reader_state_t =
  stream :: c_file
  file_header :: pcap_file_header_t
  needs_swap :: bool
  is_nanosecond :: bool
  filename :: string
  is_stdin :: bool
  packet_buffer :: "byte list"
  buffer_size :: nat

text \<open>
  The bind-time instance of the struct: PcapReaderInit reads only its \<^verbatim>\<open>filename\<close>
  and \<^verbatim>\<open>is_stdin\<close> (lines 139 and 142).
\<close>

record bind_state =
  bind_filename :: string
  bind_is_stdin :: bool

text \<open>
  \<^verbatim>\<open>sizeof(pcap_reader_state_t)\<close> on an LP64 platform; it is only the size asked of
  the allocator.
\<close>

definition sizeof_pcap_reader_state_t :: nat where
  "sizeof_pcap_reader_state_t = 72"

section \<open>PcapReaderBind\<close>

text \<open>
  Line 100 decides whether the path means standard input. Of the bind step the model
  keeps the error returns, the two allocations and the bind data; the declaration of
  the result columns is left to the host.
\<close>

definition is_stdin_path :: "string \<Rightarrow> bool" where
  "is_stdin_path fname =
     (strncmp fname ''/dev/stdin'' 11 = 0 \<or> strncmp fname ''-'' 2 = 0)"

definition PcapReaderBind :: "heap \<Rightarrow> string option \<Rightarrow> (error + bind_state) \<times> heap" where
  "PcapReaderBind h0 arg =
     (case arg of
        None \<Rightarrow> (Inl MissingInput, h0)
      | Some fname \<Rightarrow>
          (case duckdb_malloc sizeof_pcap_reader_state_t h0 of
             (ok1, h1) \<Rightarrow>
               if \<not> ok1 then (Inl AllocationFailure, h1)
               else
                 (case duckdb_malloc (length (c_str fname) + 1) h1 of
                    (ok2, h2) \<Rightarrow>
                      if \<not> ok2 then (Inl AllocationFailure, h2)
                      else (Inr \<lparr>bind_filename = c_str fname,
                                 bind_is_stdin = is_stdin_path fname\<rparr>, h2))))"

section \<open>PcapReaderInit\<close>

text \<open>Lines 182-205: the magic number decides byte order and timestamp unit.\<close>

definition negotiate :: "pcap_file_header_t \<Rightarrow> (bool \<times> bool \<times> pcap_file_header_t) option" where
  "negotiate fh =
     (if magic_number fh = PCAP_MAGIC_NATIVE then Some (False, False, fh)
      else if magic_number fh = PCAP_MAGIC_SWAPPED
      then Some (True, False, fh\<lparr>snaplen := swap32 (snaplen fh)\<rparr>)
      else if magic_number fh = PCAP_MAGIC_NANO_NATIVE then Some (False, True, fh)
      else if magic_number fh = PCAP_MAGIC_NANO_SWAPPED
      then Some (True, True, fh\<lparr>snaplen := swap32 (snaplen fh)\<rparr>)
      else None)"

text \<open>
  Lines 147-169 open the input; lines 172-217 read the header, negotiate and allocate
  the buffer. Every failure returns before the state is registered (the stream is
  closed and the state freed, which the result does not show).
\<close>

definition open_input :: "world \<Rightarrow> bind_state \<Rightarrow> c_file option" where
  "open_input w b =
     (if bind_is_stdin b then Some (stdin_stream w) else fopen_rb w (bind_filename b))"

definition PcapReaderInit ::
  "world \<Rightarrow> heap \<Rightarrow> bind_state \<Rightarrow> (error + pcap_reader_state_t) \<times> heap" where
  "PcapReaderInit w h0 b =
     (case duckdb_malloc sizeof_pcap_reader_state_t h0 of
        (ok1, h1) \<Rightarrow>
          if \<not> ok1 then (Inl AllocationFailure, h1)
          else
            (case open_input w b of
               None \<Rightarrow> (Inl OpenFailure, h1)
             | Some f0 \<Rightarrow>
                 (case fread 24 1 f0 of
                    (hbytes, n, f1) \<Rightarrow>
                      if n \<noteq> 1 then (Inl TruncatedHeader, h1)
                      else
                        (case negotiate (load_file_header (host_order w) hbytes) of
                           None \<Rightarrow> (Inl UnsupportedMagic, h1)
                         | Some (swap, nano, fh) \<Rightarrow>
                             (case duckdb_malloc (unat (snaplen fh)) h1 of
                                (ok2, h2) \<Rightarrow>
                                  if \<not> ok2 then (Inl AllocationFailure, h2)
                                  else
                                    (Inr \<lparr>stream = f1, file_header = fh,
                                          needs_swap = swap, is_nanosecond = nano,
                                          filename = bind_filename b,
                                          is_stdin = bind_is_stdin b,
                                          packet_buffer = replicate (unat (snaplen fh)) 0,
                                          buffer_size = unat (snaplen fh)\<rparr>, h2))))))"

section \<open>PcapReaderInitDataFree\<close>

text \<open>What the destructor releases (lines 47-59).\<close>

record release =
  closes_stream :: bool
  frees_buffer :: bool

definition PcapReaderInitDataFree :: "pcap_reader_state_t option \<Rightarrow> release" where
  "PcapReaderInitDataFree sto =
     (case sto of
        None \<Rightarrow> \<lparr>closes_stream = False, frees_buffer = False\<rparr>
      | Some st \<Rightarrow> \<lparr>closes_stream = (\<not> is_stdin st), frees_buffer = True\<rparr>)"

section \<open>PcapReaderFunction\<close>

record row =
  timestamp_ns :: uint64
  original_len :: uint32
  capture_len :: uint32
  data :: "byte list"

definition swap_packet_header :: "pcap_packet_header_t \<Rightarrow> pcap_packet_header_t" where
  "swap_packet_header ph =
     \<lparr> ts_sec = swap32 (ts_sec ph), ts_usec = swap32 (ts_usec ph),
       caplen = swap32 (caplen ph), len = swap32 (len ph) \<rparr>"

text \<open>
  Lines 273-281: a larger buffer replaces the current one when the packet does not
  fit. \<open>None\<close> is the \<^verbatim>\<open>break\<close> on a null result.
\<close>

definition grow_buffer ::
  "nat \<Rightarrow> pcap_reader_state_t \<Rightarrow> heap \<Rightarrow> pcap_reader_state_t option \<times> heap" where
  "grow_buffer want st h =
     (if want > buffer_size st
      then (case duckdb_malloc want h of
              (ok, h1) \<Rightarrow>
                if \<not> ok then (None, h1)
                else (Some (st\<lparr>packet_buffer := replicate want 0, buffer_size := want\<rparr>), h1))
      else (Some st, h))"

text \<open>
  Lines 260-296, after a complete header was read (and swapped when needed): the
  timestamp, the buffer, the payload, the row. The result \<open>None\<close> is a \<^verbatim>\<open>break\<close>,
  \<open>Some r\<close> the row stored at index \<^verbatim>\<open>row_count\<close>; the blob of the row is a copy of
  the first \<^verbatim>\<open>caplen\<close> bytes of the buffer.
\<close>

definition read_payload ::
  "pcap_packet_header_t \<Rightarrow> pcap_reader_state_t \<Rightarrow> heap
     \<Rightarrow> row option \<times> pcap_reader_state_t \<times> heap" where
  "read_payload ph st h =
     (let ts = timestamp_ns_of (is_nanosecond st) ph;
          want = unat (caplen ph)
      in (case grow_buffer want st h of
            (None, h1) \<Rightarrow> (None, st, h1)
          | (Some st1, h1) \<Rightarrow>
              (case fread 1 want (stream st1) of
                 (pbytes, got, f2) \<Rightarrow>
                   let st2 = st1\<lparr>stream := f2,
                                 packet_buffer :=
                                   pbytes @ drop (length pbytes) (packet_buffer st1)\<rparr>
                   in if got \<noteq> want then (None, st2, h1)
                      else (Some \<lparr>timestamp_ns = ts, original_len = len ph,
                                  capture_len = caplen ph,
                                  data = take want (packet_buffer st2)\<rparr>, st2, h1))))"

text \<open>The body of the while loop (lines 245-296).\<close>

definition read_packet ::
  "endianness \<Rightarrow> pcap_reader_state_t \<Rightarrow> heap \<Rightarrow> row option \<times> pcap_reader_state_t \<times> heap" where
  "read_packet e st h =
     (case fread 16 1 (stream st) of
        (hbytes, n, f1) \<Rightarrow>
          if n \<noteq> 1 then (None, st\<lparr>stream := f1\<rparr>, h)
          else
            let ph0 = load_packet_header e hbytes;
                ph = (if needs_swap st then swap_packet_header ph0 else ph0)
            in read_payload ph (st\<lparr>stream := f1\<rparr>) h)"

text \<open>
  The while loop of lines 244-297; \<open>out\<close> is the chunk filled so far and
  \<^verbatim>\<open>row_count\<close> its length.
\<close>

function read_loop ::
  "endianness \<Rightarrow> nat \<Rightarrow> pcap_reader_state_t \<Rightarrow> heap \<Rightarrow> row list
     \<Rightarrow> row list \<times> pcap_reader_state_t \<times> heap" where
  "read_loop e max_rows st h out =
     (if length out < max_rows \<and> \<not> feof (stream st)
      then (case read_packet e st h of
              (None, st', h') \<Rightarrow> (out, st', h')
            | (Some r, st', h') \<Rightarrow> read_loop e max_rows st' h' (out @ [r]))
      else (out, st, h))"
  by pat_completeness auto
termination
  by (relation "measure (\<lambda>(e, max_rows, st, h, out). max_rows - length out)") auto

declare read_loop.simps [simp del]

text \<open>
  \<^verbatim>\<open>max_rows\<close> is the host's \<^verbatim>\<open>duckdb_vector_size()\<close>, a parameter here. A null state
  gives a chunk of size 0 (lines 226-229).
\<close>

definition PcapReaderFunction ::
  "endianness \<Rightarrow> nat \<Rightarrow> pcap_reader_state_t option \<Rightarrow> heap
     \<Rightarrow> row list \<times> pcap_reader_state_t option \<times> heap" where
  "PcapReaderFunction e max_rows sto h =
     (case sto of
        None \<Rightarrow> ([], None, h)
      | Some st \<Rightarrow>
          (case read_loop e max_rows st h [] of (rows, st', h') \<Rightarrow> (rows, Some st', h')))"

text \<open>
  The header the loop body works on: the next 16 bytes of the stream as the host
  reads them, byte-swapped when the file is in the other order (lines 248-258).
\<close>

definition next_header :: "endianness \<Rightarrow> pcap_reader_state_t \<Rightarrow> pcap_packet_header_t" where
  "next_header e st =
     (let ph0 = load_packet_header e (take 16 (unread (stream st)))
      in if needs_swap st then swap_packet_header ph0 else ph0)"

text \<open>The allocator's answer to the next request, and the oracle after it.\<close>

definition next_alloc_ok :: "heap \<Rightarrow> nat \<Rightarrow> bool" where
  "next_alloc_ok h n = h 0 n"

definition heap_after :: "heap \<Rightarrow> heap" where
  "heap_after h = (\<lambda>i. h (Suc i))"

section \<open>The host side\<close>

text \<open>
  Modelled from the spec: the sink's pull loop (sections 4.2 and 6). The host calls
  the table function for one batch after another and takes an empty batch as the end
  of the scan; the rows of the scan are the batches in order. The scan ends because
  every row of a batch consumes at least the 16 bytes of its header.
\<close>

function pull_all ::
  "endianness \<Rightarrow> nat \<Rightarrow> pcap_reader_state_t option \<Rightarrow> heap
     \<Rightarrow> row list \<times> pcap_reader_state_t option \<times> heap" where
  "pull_all e max_rows sto h =
     (case PcapReaderFunction e max_rows sto h of
        (rows, sto', h') \<Rightarrow>
          if rows = [] then ([], sto', h')
          else (case pull_all e max_rows sto' h' of
                  (rest, sto'', h'') \<Rightarrow> (rows @ rest, sto'', h'')))"
  by pat_completeness auto
termination
proof (relation "measure (\<lambda>(e, max_rows, sto, h).
         case sto of None \<Rightarrow> 0 | Some st \<Rightarrow> length (unread (stream st)))", goal_cases)
  case 1
  show ?case
    by simp
next
  case (2 e max_rows sto h rows y sto' h')
  have payload: "length (unread (stream s')) \<le> length (unread (stream s))"
    if "read_payload ph s g = (ro, s', g')" for ph s g ro s' g'
    using that
    by (auto simp: read_payload_def grow_buffer_def duckdb_malloc_def fread_def Let_def
        split: if_splits prod.splits option.splits)
  have packet: "length (unread (stream s')) + (if ro = None then 0 else 16)
                  \<le> length (unread (stream s))"
    if "read_packet e0 s g = (ro, s', g')" for e0 s g ro s' g'
    using that
    by (auto simp: read_packet_def fread_def Let_def split: if_splits dest!: payload)
  have loop: "length out \<le> length rs \<and>
      length (unread (stream s')) + 16 * (length rs - length out) \<le> length (unread (stream s))"
    if "read_loop e0 m s g out = (rs, s', g')" for e0 m s g out rs s' g'
    using that
  proof (induction e0 m s g out rule: read_loop.induct)
    case (1 e m s g out)
    show ?case
    proof (cases "length out < m \<and> \<not> feof (stream s)")
      case False
      with "1.prems" show ?thesis
        by (simp add: read_loop.simps [of e m s g out])
    next
      case True
      obtain ro s1 g1 where rp: "read_packet e s g = (ro, s1, g1)"
        by (cases "read_packet e s g") auto
      show ?thesis
      proof (cases ro)
        case None
        with True rp "1.prems" have "rs = out" "s' = s1"
          by (simp_all add: read_loop.simps [of e m s g out])
        with packet [OF rp] None show ?thesis
          by simp
      next
        case (Some r)
        with True rp "1.prems" have rec: "read_loop e m s1 g1 (out @ [r]) = (rs, s', g')"
          by (simp add: read_loop.simps [of e m s g out])
        from "1.IH" [OF True rp [symmetric] Some refl rec]
        have "length (out @ [r]) \<le> length rs"
          and "length (unread (stream s')) + 16 * (length rs - length (out @ [r]))
                 \<le> length (unread (stream s1))"
          by simp_all
        with packet [OF rp] Some show ?thesis
          by simp
      qed
    qed
  qed
  from 2 have pf: "PcapReaderFunction e max_rows sto h = (rows, sto', h')" and ne: "rows \<noteq> []"
    by simp_all
  show ?case
  proof (cases sto)
    case None
    with pf ne show ?thesis
      by (simp add: PcapReaderFunction_def)
  next
    case (Some st)
    with pf obtain st' where sto': "sto' = Some st'"
      and rl: "read_loop e max_rows st h [] = (rows, st', h')"
      by (auto simp: PcapReaderFunction_def split: prod.splits)
    from loop [OF rl] ne have "length (unread (stream st')) < length (unread (stream st))"
      by (cases rows) auto
    with Some sto' show ?thesis
      by simp
  qed
qed

declare pull_all.simps [simp del]

text \<open>
  Modelled from the spec: the host's use of the table function (section 6): bind,
  then open and negotiate, then pull until the empty batch; a failure of bind or
  init is surfaced before any row.
\<close>

definition read_pcap :: "world \<Rightarrow> heap \<Rightarrow> nat \<Rightarrow> string option \<Rightarrow> error + row list" where
  "read_pcap w h0 max_rows arg =
     (case PcapReaderBind h0 arg of
        (Inl err, h1) \<Rightarrow> Inl err
      | (Inr b, h1) \<Rightarrow>
          (case PcapReaderInit w h1 b of
             (Inl err, h2) \<Rightarrow> Inl err
           | (Inr st, h2) \<Rightarrow> Inr (fst (pull_all (host_order w) max_rows (Some st) h2))))"

section \<open>Vocabulary of the statements\<close>

text \<open>
  The bytes of a 32-bit field in a capture file: as the host stores the value when the
  file is in host order, reversed when the file is in the other order.
\<close>

definition store32 :: "endianness \<Rightarrow> uint32 \<Rightarrow> byte list" where
  "store32 e v =
     (let le = [ucast v, ucast (drop_bit 8 v), ucast (drop_bit 16 v), ucast (drop_bit 24 v)]
      in case e of LittleEndian \<Rightarrow> le | BigEndian \<Rightarrow> rev le)"

definition file_field :: "endianness \<Rightarrow> bool \<Rightarrow> uint32 \<Rightarrow> byte list" where
  "file_field e swapped v = (if swapped then rev (store32 e v) else store32 e v)"

text \<open>A record of a capture file: the 16-byte header followed by the payload.\<close>

definition encode_record ::
  "endianness \<Rightarrow> bool \<Rightarrow> pcap_packet_header_t \<times> byte list \<Rightarrow> byte list" where
  "encode_record e swapped rec =
     file_field e swapped (ts_sec (fst rec)) @ file_field e swapped (ts_usec (fst rec)) @
     file_field e swapped (caplen (fst rec)) @ file_field e swapped (len (fst rec)) @ snd rec"

definition encode_records ::
  "endianness \<Rightarrow> bool \<Rightarrow> (pcap_packet_header_t \<times> byte list) list \<Rightarrow> byte list" where
  "encode_records e swapped recs = concat (map (encode_record e swapped) recs)"

definition complete_record :: "pcap_packet_header_t \<times> byte list \<Rightarrow> bool" where
  "complete_record rec = (unat (caplen (fst rec)) = length (snd rec))"

definition row_of :: "bool \<Rightarrow> pcap_packet_header_t \<times> byte list \<Rightarrow> row" where
  "row_of nano rec =
     \<lparr>timestamp_ns = timestamp_ns_of nano (fst rec), original_len = len (fst rec),
      capture_len = caplen (fst rec), data = snd rec\<rparr>"

text \<open>The record header at the head of a byte sequence, as the reader decodes it.\<close>

definition header_of :: "endianness \<Rightarrow> bool \<Rightarrow> byte list \<Rightarrow> pcap_packet_header_t" where
  "header_of e swapped bs =
     (let ph0 = load_packet_header e (take 16 bs)
      in if swapped then swap_packet_header ph0 else ph0)"

text \<open>
  The end of a cut-off stream: nothing, a partial record header (1 to 15 bytes), or a
  complete header followed by fewer payload bytes than it announces.
\<close>

definition truncated_tail :: "endianness \<Rightarrow> bool \<Rightarrow> byte list \<Rightarrow> bool" where
  "truncated_tail e swapped bs =
     (length bs < 16 \<or> length bs < 16 + unat (caplen (header_of e swapped bs)))"

text \<open>
  The other-order form of a capture file in host order: every multi-byte field of the
  capture header and of every record header has its bytes reversed (which turns each
  host-order magic number into its swapped variant); payloads are left as they are.
  The record boundaries are those of the host-order file.
\<close>

definition swap_file_header :: "byte list \<Rightarrow> byte list" where
  "swap_file_header bs =
     rev (slice 0 4 bs) @ rev (slice 4 2 bs) @ rev (slice 6 2 bs) @ rev (slice 8 4 bs) @
     rev (slice 12 4 bs) @ rev (slice 16 4 bs) @ rev (slice 20 4 bs)"

definition swap_record_header :: "byte list \<Rightarrow> byte list" where
  "swap_record_header bs =
     rev (slice 0 4 bs) @ rev (slice 4 4 bs) @ rev (slice 8 4 bs) @ rev (slice 12 4 bs)"

function swap_records :: "endianness \<Rightarrow> byte list \<Rightarrow> byte list" where
  "swap_records e bs =
     (if length bs < 16 then bs
      else swap_record_header (take 16 bs) @
           take (unat (load32 e (slice 8 4 bs))) (drop 16 bs) @
           swap_records e (drop (16 + unat (load32 e (slice 8 4 bs))) bs))"
  by pat_completeness auto
termination
  by (relation "measure (\<lambda>(e, bs). length bs)") auto

declare swap_records.simps [simp del]

definition byte_swap_header_and_records :: "endianness \<Rightarrow> byte list \<Rightarrow> byte list" where
  "byte_swap_header_and_records e bs =
     (if length bs < 24 then bs
      else swap_file_header (take 24 bs) @ swap_records e (drop 24 bs))"

text \<open>
  Two readers in step: one on a host-order stream, one on its other-order form with
  the swap flag set.
\<close>

definition in_step :: "endianness \<Rightarrow> pcap_reader_state_t \<Rightarrow> pcap_reader_state_t \<Rightarrow> bool" where
  "in_step e stn sts =
     (\<not> needs_swap stn \<and> needs_swap sts \<and> is_nanosecond sts = is_nanosecond stn \<and>
      buffer_size sts = buffer_size stn \<and>
      eof_ind (stream sts) = eof_ind (stream stn) \<and>
      unread (stream sts) = swap_records e (unread (stream stn)))"

section \<open>Allocators\<close>

text \<open>An allocator that grants every request of a positive size.\<close>

definition grants_positive :: "heap \<Rightarrow> bool" where
  "grants_positive h = (\<forall>i n. 0 < n \<longrightarrow> h i n)"

text \<open>
  Particular allocators: one grants everything, one refuses everything, one grants
  two requests and then refuses.
\<close>

definition grant_all :: heap where
  "grant_all i n = True"

definition grant_none :: heap where
  "grant_none i n = False"

definition grant_two :: heap where
  "grant_two i n = (i < 2)"

section \<open>Example inputs\<close>

text \<open>
  Small concrete states, files and streams for a little-endian host, on which the
  theorems below are instantiated.
\<close>

definition ex_state :: "bool \<Rightarrow> bool \<Rightarrow> nat \<Rightarrow> byte list \<Rightarrow> pcap_reader_state_t" where
  "ex_state swap nano cap bs =
     \<lparr>stream = \<lparr>unread = bs, eof_ind = False\<rparr>,
      file_header = \<lparr>magic_number = 0, version_major = 2, version_minor = 4, thiszone = 0,
                     sigfigs = 0, snaplen = of_nat cap, network = 1\<rparr>,
      needs_swap = swap, is_nanosecond = nano, filename = ''a.pcap'', is_stdin = False,
      packet_buffer = replicate cap 0, buffer_size = cap\<rparr>"

definition ex_world :: "byte list \<Rightarrow> world" where
  "ex_world bs =
     \<lparr>host_order = LittleEndian,
      files = (\<lambda>p. if p = ''a.pcap'' then Some bs else None),
      stdin_stream = \<lparr>unread = [], eof_ind = False\<rparr>\<rparr>"

definition ex_bind :: bind_state where
  "ex_bind = \<lparr>bind_filename = ''a.pcap'', bind_is_stdin = False\<rparr>"

definition ex_header :: "byte list \<Rightarrow> byte list \<Rightarrow> byte list" where
  "ex_header magic snap = magic @ [2, 0, 4, 0, 0, 0, 0, 0, 0, 0, 0, 0] @ snap @ [1, 0, 0, 0]"

definition ex_stdin_world :: "byte list \<Rightarrow> world" where
  "ex_stdin_world bs =
     \<lparr>host_order = LittleEndian, files = (\<lambda>p. None),
      stdin_stream = \<lparr>unread = bs, eof_ind = False\<rparr>\<rparr>"

definition ex_zero_stream :: "byte list" where
  "ex_zero_stream =
     [1, 0, 0, 0, 0, 0, 0, 0, 0, 0, 0, 0, 60, 0, 0, 0] @
     [2, 0, 0, 0, 0, 0, 0, 0, 1, 0, 0, 0, 1, 0, 0, 0, 0x7f]"

definition ex_grow_stream :: "byte list" where
  "ex_grow_stream =
     [1, 0, 0, 0, 0, 0, 0, 0, 2, 0, 0, 0, 2, 0, 0, 0, 0x11, 0x12] @
     [2, 0, 0, 0, 0, 0, 0, 0, 2, 0, 0, 0, 2, 0, 0, 0, 0x21, 0x22] @
     [3, 0, 0, 0, 0, 0, 0, 0, 5, 0, 0, 0, 9, 0, 0, 0, 0x31, 0x32, 0x33, 0x34, 0x35]"

definition ex_snap0_file :: "byte list" where
  "ex_snap0_file =
     ex_header [0xd4, 0xc3, 0xb2, 0xa1] [0, 0, 0, 0] @
     [1, 0, 0, 0, 0, 0, 0, 0, 3, 0, 0, 0, 3, 0, 0, 0, 7, 8, 9]"

definition ex_refused_file :: "byte list" where
  "ex_refused_file =
     ex_header [0xd4, 0xc3, 0xb2, 0xa1] [4, 0, 0, 0] @
     [1, 0, 0, 0, 0, 0, 0, 0, 16, 0, 0, 0, 16, 0, 0, 0] @
     [7, 0, 0, 0, 0, 0, 0, 0, 0, 0, 0, 0, 0, 0, 0, 0] @
     [2, 0, 0, 0, 0, 0, 0, 0, 1, 0, 0, 0, 1, 0, 0, 0, 0x7f]"

definition ex_refused_state :: "byte list \<Rightarrow> pcap_reader_state_t" where
  "ex_refused_state bs =
     \<lparr>stream = \<lparr>unread = bs, eof_ind = False\<rparr>,
      file_header = \<lparr>magic_number = 0xa1b2c3d4, version_major = 2, version_minor = 4,
                     thiszone = 0, sigfigs = 0, snaplen = 4, network = 1\<rparr>,
      needs_swap = False, is_nanosecond = False, filename = ''a.pcap'', is_stdin = False,
      packet_buffer = replicate 4 0, buffer_size = 4\<rparr>"

definition ex_recs :: "(pcap_packet_header_t \<times> byte list) list" where
  "ex_recs =
     [(\<lparr>ts_sec = 1, ts_usec = 0, caplen = 2, len = 2\<rparr>, [0x11, 0x12]),
      (\<lparr>ts_sec = 2, ts_usec = 0, caplen = 0, len = 60\<rparr>, []),
      (\<lparr>ts_sec = 3, ts_usec = 0, caplen = 5, len = 9\<rparr>, [0x31, 0x32, 0x33, 0x34, 0x35])]"

definition ex_cut_tail :: "byte list" where
  "ex_cut_tail = [4, 0, 0, 0, 0, 0, 0, 0, 8, 0, 0, 0, 8, 0, 0, 0, 1, 2, 3]"

definition ex_native_file :: "byte list" where
  "ex_native_file =
     ex_header [0xd4, 0xc3, 0xb2, 0xa1] [4, 0, 0, 0] @
     [1, 0, 0, 0, 0x20, 0xA1, 0x07, 0, 2, 0, 0, 0, 2, 0, 0, 0, 0x11, 0x12] @
     [3, 0, 0, 0, 0, 0, 0, 0, 5, 0, 0, 0, 9, 0, 0, 0, 0x31, 0x32, 0x33, 0x34, 0x35] @
     [4, 0, 0, 0, 0, 0]"

section \<open>Word lemmas\<close>

lemma le_word4:
  "le_word [a, b, c, d] =
     (ucast a OR push_bit 8 (ucast b) OR push_bit 16 (ucast c) OR push_bit 24 (ucast d) :: uint32)"
  by (simp add: push_bit_or or.assoc flip: push_bit_add)

lemma le_word_bytes:
  "le_word [ucast v, ucast (drop_bit 8 v), ucast (drop_bit 16 v), ucast (drop_bit 24 v)]
     = (v :: uint32)"
  unfolding le_word4
proof (rule bit_eqI)
  fix n
  assume "possible_bit TYPE(uint32) n"
  then have n: "n < 32"
    by (simp add: possible_bit_def)
  consider "n < 8" | "8 \<le> n" "n < 16" | "16 \<le> n" "n < 24" | "24 \<le> n"
    by linarith
  then show "bit (ucast (ucast v :: byte) OR
                  push_bit 8 (ucast (ucast (drop_bit 8 v) :: byte)) OR
                  push_bit 16 (ucast (ucast (drop_bit 16 v) :: byte)) OR
                  push_bit 24 (ucast (ucast (drop_bit 24 v) :: byte)) :: uint32) n
             = bit v n"
    using n by cases (auto simp: bit_simps)
qed

lemma swap32_mask:
  "swap32 v = drop_bit 24 (v AND push_bit 24 (mask 8)) OR drop_bit 8 (v AND push_bit 16 (mask 8)) OR
     push_bit 8 (v AND push_bit 8 (mask 8)) OR push_bit 24 (v AND mask 8)"
  by (simp add: swap32_def mask_eq_exp_minus_1)

lemma bit_byte_high: "8 \<le> n \<Longrightarrow> \<not> bit (a :: byte) n"
  using bit_imp_le_length [of a n] by auto

lemma swap32_le_word: "swap32 (le_word [a, b, c, d]) = le_word [d, c, b, a]"
  unfolding le_word4 swap32_mask
proof (rule bit_eqI)
  fix n
  assume "possible_bit TYPE(uint32) n"
  then have n: "n < 32"
    by (simp add: possible_bit_def)
  let ?x = "ucast a OR push_bit 8 (ucast b) OR push_bit 16 (ucast c) OR push_bit 24 (ucast d) :: uint32"
  consider "n < 8" | "8 \<le> n" "n < 16" | "16 \<le> n" "n < 24" | "24 \<le> n"
    by linarith
  then show "bit (drop_bit 24 (?x AND push_bit 24 (mask 8)) OR drop_bit 8 (?x AND push_bit 16 (mask 8)) OR
       push_bit 8 (?x AND push_bit 8 (mask 8)) OR push_bit 24 (?x AND mask 8)) n =
       bit (ucast d OR push_bit 8 (ucast c) OR push_bit 16 (ucast b) OR push_bit 24 (ucast a) :: uint32) n"
    using n 
    apply cases
       apply (simp_all add: bit_simps bit_byte_high)
      apply auto
    done
qed

lemma swap32_swap32: "swap32 (swap32 v) = v"
proof -
  define bs where
    "bs = [ucast v, ucast (drop_bit 8 v), ucast (drop_bit 16 v), ucast (drop_bit 24 v) :: byte]"
  have v: "v = le_word bs"
    unfolding bs_def by (rule le_word_bytes [symmetric])
  have "swap32 (swap32 (le_word bs)) = le_word bs"
    unfolding bs_def by (simp only: swap32_le_word)
  then show ?thesis
    using v by simp
qed

lemma length4E:
  assumes "length bs = 4"
  obtains a b c d where "bs = [a, b, c, d]"
proof -
  from assms obtain a bs1 where 1: "bs = a # bs1" "length bs1 = 3"
    by (cases bs) auto
  then obtain b bs2 where 2: "bs1 = b # bs2" "length bs2 = 2"
    by (cases bs1) auto
  then obtain c bs3 where 3: "bs2 = c # bs3" "length bs3 = 1"
    by (cases bs2) auto
  then obtain d where "bs3 = [d]"
    by (cases bs3) auto
  with 1 2 3 show ?thesis
    using that by simp
qed

lemma load32_rev:
  assumes "length bs = 4"
  shows "load32 e (rev bs) = swap32 (load32 e bs)"
proof -
  from assms obtain a b c d where bs: "bs = [a, b, c, d]"
    by (rule length4E)
  show ?thesis
    by (cases e) (simp_all add: bs load32_def swap32_le_word del: le_word.simps)
qed

lemma unat_ucast_32_64: "unat (ucast (w :: uint32) :: uint64) = unat w"
  by (simp add: unsigned_ucast_eq take_bit_nat_eq_self_iff)
    (rule less_trans [OF unsigned_less], simp)

lemma unat32_bound: "unat (w :: uint32) < 4294967296"
  using unsigned_less [of w, where 'a = nat] by simp

lemma timestamp_bound:
  "unat (s :: uint32) * 1000000000 + unat (f :: uint32) * (if nano then 1 else 1000) < 2 ^ 64"
proof -
  have "unat s < 4294967296" and "unat f < 4294967296"
    by (rule unat32_bound)+
  then show ?thesis
    by simp
qed

lemma unat_timestamp_ns_of:
  "unat (timestamp_ns_of nano ph) =
     unat (ts_sec ph) * 1000000000 + unat (ts_usec ph) * (if nano then 1 else 1000)"
proof -
  have "unat (ts_sec ph) * 1000000000 + unat (ts_usec ph) * (if nano then 1 else 1000) < 2 ^ 64"
    by (rule timestamp_bound)
  then show ?thesis
    unfolding timestamp_ns_of_def
    by (simp add: unat_word_ariths unat_ucast_32_64 split: if_splits)
qed

section \<open>The loop body, case by case\<close>

lemma duckdb_malloc_eq: "duckdb_malloc n h = (next_alloc_ok h n, heap_after h)"
  by (simp add: duckdb_malloc_def next_alloc_ok_def heap_after_def)

lemma fread_short:
  "length (unread f) < sz * nmemb \<Longrightarrow>
     fread sz nmemb f = (unread f, length (unread f) div sz, f\<lparr>unread := [], eof_ind := True\<rparr>)"
  by (auto simp: fread_def)

lemma fread_full:
  "0 < sz * nmemb \<Longrightarrow> sz * nmemb \<le> length (unread f) \<Longrightarrow>
     fread sz nmemb f =
       (take (sz * nmemb) (unread f), nmemb, f\<lparr>unread := drop (sz * nmemb) (unread f)\<rparr>)"
  by (auto simp: fread_def)

lemma fread_zero: "fread sz 0 f = ([], 0, f)"
  by (simp add: fread_def)

lemma fread_bytes:
  "n \<le> length (unread f) \<Longrightarrow>
     fread (Suc 0) n f = (take n (unread f), n, f\<lparr>unread := drop n (unread f)\<rparr>)"
  by (cases "n = 0") (simp_all add: fread_def)

lemma fread_bytes_short:
  "length (unread f) < n \<Longrightarrow>
     fread (Suc 0) n f = (unread f, length (unread f), f\<lparr>unread := [], eof_ind := True\<rparr>)"
  by (simp add: fread_def)

text \<open>A trailing partial header: the loop breaks and the stream is exhausted.\<close>

lemma read_packet_short_header:
  assumes "length (unread (stream st)) < 16"
  shows "read_packet e st h = (None, st\<lparr>stream := (stream st)\<lparr>unread := [], eof_ind := True\<rparr>\<rparr>, h)"
proof -
  have "length (unread (stream st)) div 16 = 0"
    using assms by simp
  then show ?thesis
    using assms by (simp add: read_packet_def fread_short)
qed

lemma read_packet_header:
  assumes "16 \<le> length (unread (stream st))"
  shows "read_packet e st h =
           read_payload (next_header e st)
             (st\<lparr>stream := (stream st)\<lparr>unread := drop 16 (unread (stream st))\<rparr>\<rparr>) h"
  using assms by (simp add: read_packet_def fread_full next_header_def Let_def)

text \<open>A complete header whose packet needs a larger buffer that cannot be had.\<close>

lemma read_payload_alloc_fails:
  assumes "buffer_size st < unat (caplen ph)" and "\<not> next_alloc_ok h (unat (caplen ph))"
  shows "read_payload ph st h = (None, st, heap_after h)"
  using assms by (simp add: read_payload_def grow_buffer_def duckdb_malloc_eq)

lemma grow_buffer_ok:
  assumes "buffer_size st < want \<longrightarrow> next_alloc_ok h want"
  shows "grow_buffer want st h =
           (Some (if buffer_size st < want
                  then st\<lparr>packet_buffer := replicate want 0, buffer_size := want\<rparr> else st),
            if buffer_size st < want then heap_after h else h)"
  using assms by (simp add: grow_buffer_def duckdb_malloc_eq)

text \<open>A complete header followed by fewer payload bytes than it announces.\<close>

lemma read_payload_short:
  assumes "length (unread (stream st)) < unat (caplen ph)"
    and "buffer_size st < unat (caplen ph) \<longrightarrow> next_alloc_ok h (unat (caplen ph))"
  shows "\<exists>st' h'. read_payload ph st h = (None, st', h') \<and>
           unread (stream st') = [] \<and> eof_ind (stream st')"
  using assms(1)
  by (simp add: read_payload_def grow_buffer_ok [of st "unat (caplen ph)" h, OF assms(2)] fread_bytes_short Let_def)

lemma read_payload_complete:
  assumes "unat (caplen ph) \<le> length (unread (stream st))"
    and "buffer_size st < unat (caplen ph) \<longrightarrow> next_alloc_ok h (unat (caplen ph))"
  shows "\<exists>st'. read_payload ph st h =
           (Some \<lparr>timestamp_ns = timestamp_ns_of (is_nanosecond st) ph,
                  original_len = len ph, capture_len = caplen ph,
                  data = take (unat (caplen ph)) (unread (stream st))\<rparr>,
            st', if buffer_size st < unat (caplen ph) then heap_after h else h) \<and>
           stream st' = (stream st)\<lparr>unread := drop (unat (caplen ph)) (unread (stream st))\<rparr> \<and>
           needs_swap st' = needs_swap st \<and> is_nanosecond st' = is_nanosecond st \<and>
           is_stdin st' = is_stdin st \<and>
           buffer_size st' = max (buffer_size st) (unat (caplen ph))"
  using assms(1)
  by (simp add: read_payload_def grow_buffer_ok [of st "unat (caplen ph)" h, OF assms(2)] fread_bytes Let_def max_def)

section \<open>Inversion of the loop body\<close>

lemma read_payload_SomeD:
  assumes "read_payload ph st h = (Some r, st', h')"
  shows "unat (caplen ph) \<le> length (unread (stream st)) \<and>
         (buffer_size st < unat (caplen ph) \<longrightarrow> next_alloc_ok h (unat (caplen ph)))"
proof -
  have ok: "buffer_size st < unat (caplen ph) \<longrightarrow> next_alloc_ok h (unat (caplen ph))"
    using assms read_payload_alloc_fails [of st ph h] by auto
  have "unat (caplen ph) \<le> length (unread (stream st))"
    using assms read_payload_short [of st ph h, OF _ ok] by (cases "unat (caplen ph) \<le> length (unread (stream st))") auto
  with ok show ?thesis
    by simp
qed

lemma read_packet_SomeD:
  assumes "read_packet e st h = (Some r, st', h')"
  shows "16 + unat (caplen (next_header e st)) \<le> length (unread (stream st)) \<and>
         (buffer_size st < unat (caplen (next_header e st)) \<longrightarrow>
            next_alloc_ok h (unat (caplen (next_header e st))))"
proof -
  have hdr: "16 \<le> length (unread (stream st))"
    using assms read_packet_short_header [of st e h] by (cases "16 \<le> length (unread (stream st))") auto
  let ?st1 = "st\<lparr>stream := (stream st)\<lparr>unread := drop 16 (unread (stream st))\<rparr>\<rparr>"
  from assms hdr have "read_payload (next_header e st) ?st1 h = (Some r, st', h')"
    by (simp add: read_packet_header)
  from read_payload_SomeD [OF this] hdr show ?thesis
    by auto
qed

text \<open>The outcome of the loop body on a complete record, in full.\<close>

lemma read_packet_complete:
  assumes "16 + unat (caplen (next_header e st)) \<le> length (unread (stream st))"
    and "buffer_size st < unat (caplen (next_header e st)) \<longrightarrow>
           next_alloc_ok h (unat (caplen (next_header e st)))"
  shows "\<exists>st'. read_packet e st h =
           (Some \<lparr>timestamp_ns = timestamp_ns_of (is_nanosecond st) (next_header e st),
                  original_len = len (next_header e st),
                  capture_len = caplen (next_header e st),
                  data = take (unat (caplen (next_header e st))) (drop 16 (unread (stream st)))\<rparr>,
            st',
            if buffer_size st < unat (caplen (next_header e st)) then heap_after h else h) \<and>
           stream st' = (stream st)\<lparr>unread :=
              drop (16 + unat (caplen (next_header e st))) (unread (stream st))\<rparr> \<and>
           needs_swap st' = needs_swap st \<and> is_nanosecond st' = is_nanosecond st \<and>
           is_stdin st' = is_stdin st \<and>
           buffer_size st' = max (buffer_size st) (unat (caplen (next_header e st)))"
proof -
  let ?st1 = "st\<lparr>stream := (stream st)\<lparr>unread := drop 16 (unread (stream st))\<rparr>\<rparr>"
  have hdr: "16 \<le> length (unread (stream st))"
    using assms(1) by simp
  have 1: "unat (caplen (next_header e st)) \<le> length (unread (stream ?st1))"
    using assms(1) by simp
  have 2: "buffer_size ?st1 < unat (caplen (next_header e st)) \<longrightarrow>
             next_alloc_ok h (unat (caplen (next_header e st)))"
    using assms(2) by simp
  from read_payload_complete [OF 1 2] show ?thesis
    by (simp add: read_packet_header [OF hdr] add.commute)
qed

lemma read_packet_row:
  assumes "read_packet e st h = (Some r, st', h')"
  shows "r = \<lparr>timestamp_ns = timestamp_ns_of (is_nanosecond st) (next_header e st),
               original_len = len (next_header e st),
               capture_len = caplen (next_header e st),
               data = take (unat (caplen (next_header e st))) (drop 16 (unread (stream st)))\<rparr>"
proof -
  from read_packet_SomeD [OF assms]
  have "16 + unat (caplen (next_header e st)) \<le> length (unread (stream st))"
    and "buffer_size st < unat (caplen (next_header e st)) \<longrightarrow>
           next_alloc_ok h (unat (caplen (next_header e st)))"
    by simp_all
  from read_packet_complete [OF this] assms show ?thesis
    by auto
qed

section \<open>Timestamps\<close>

text \<open>
  C3. Every row the loop body produces has
  \<open>timestamp_ns = seconds * 1000000000 + fraction\<close> when the file is in nanoseconds and
  \<open>seconds * 1000000000 + fraction * 1000\<close> when it is in microseconds, as computed on
  64-bit unsigned words, that is modulo \<open>2 ^ 64\<close>; the code has no overflow check (and
  with 32-bit fields the sum stays below \<open>2 ^ 64\<close>). Seconds 1 with fraction 500000
  in microseconds give 1500000000; seconds 1 with fraction 500 in nanoseconds give
  1000000500.
\<close>

theorem timestamp_canonicalization:
  assumes "read_packet e st h = (Some r, st', h')"
  shows "unat (timestamp_ns r) =
           (unat (ts_sec (next_header e st)) * 1000000000 +
            unat (ts_usec (next_header e st)) * (if is_nanosecond st then 1 else 1000))
           mod 2 ^ 64 \<and>
         timestamp_ns r =
           (if is_nanosecond st
            then ucast (ts_sec (next_header e st)) * 1000000000 +
                 ucast (ts_usec (next_header e st))
            else ucast (ts_sec (next_header e st)) * 1000000000 +
                 ucast (ts_usec (next_header e st)) * 1000) \<and>
         timestamp_ns_of False \<lparr>ts_sec = 1, ts_usec = 500000, caplen = c, len = l\<rparr>
           = 1500000000 \<and>
         timestamp_ns_of True \<lparr>ts_sec = 1, ts_usec = 500, caplen = c, len = l\<rparr>
           = 1000000500"
proof -
  let ?ph = "next_header e st"
  have ts: "timestamp_ns r = timestamp_ns_of (is_nanosecond st) ?ph"
    using read_packet_row [OF assms] by simp
  have "unat (ts_sec ?ph) * 1000000000 +
          unat (ts_usec ?ph) * (if is_nanosecond st then 1 else 1000) < 2 ^ 64"
    by (rule timestamp_bound)
  then have "unat (timestamp_ns r) =
      (unat (ts_sec ?ph) * 1000000000 +
       unat (ts_usec ?ph) * (if is_nanosecond st then 1 else 1000)) mod 2 ^ 64"
    by (simp only: ts unat_timestamp_ns_of mod_less)
  moreover have "timestamp_ns r =
      (if is_nanosecond st
       then ucast (ts_sec ?ph) * 1000000000 + ucast (ts_usec ?ph)
       else ucast (ts_sec ?ph) * 1000000000 + ucast (ts_usec ?ph) * 1000)"
    by (simp add: ts timestamp_ns_of_def)
  moreover have "timestamp_ns_of False \<lparr>ts_sec = 1, ts_usec = 500000, caplen = c, len = l\<rparr>
      = 1500000000"
    by (simp add: timestamp_ns_of_def)
  moreover have "timestamp_ns_of True \<lparr>ts_sec = 1, ts_usec = 500, caplen = c, len = l\<rparr>
      = 1000000500"
    by (simp add: timestamp_ns_of_def)
  ultimately show ?thesis
    by blast
qed

lemmas eval_defs = read_packet_def fread_def load_packet_header_def slice_def load32_def
  read_payload_def grow_buffer_def duckdb_malloc_def Let_def timestamp_ns_of_def
  next_header_def swap_packet_header_def swap32_def ex_state_def

lemma ex_micro_row:
  "fst (read_packet LittleEndian
         (ex_state False False 0
            [1, 0, 0, 0, 0x20, 0xA1, 0x07, 0, 2, 0, 0, 0, 9, 0, 0, 0, 0xAA, 0xBB])
         (\<lambda>i n. True))
     = Some \<lparr>timestamp_ns = 1500000000, original_len = 9, capture_len = 2,
              data = [0xAA, 0xBB]\<rparr>"
  by (simp add: eval_defs)

theorem timestamp_canonicalization_witness:
  "\<exists>r st' h'.
     read_packet LittleEndian
       (ex_state False False 0
          [1, 0, 0, 0, 0x20, 0xA1, 0x07, 0, 2, 0, 0, 0, 9, 0, 0, 0, 0xAA, 0xBB])
       (\<lambda>i n. True) = (Some r, st', h') \<and>
     unat (timestamp_ns r) = 1500000000 \<and> timestamp_ns r = 1500000000"
proof -
  let ?st = "ex_state False False 0
     [1, 0, 0, 0, 0x20, 0xA1, 0x07, 0, 2, 0, 0, 0, 9, 0, 0, 0, 0xAA, 0xBB]"
  let ?r = "\<lparr>timestamp_ns = 1500000000, original_len = 9, capture_len = 2,
             data = [0xAA, 0xBB]\<rparr>"
  obtain st' h' where hyp: "read_packet LittleEndian ?st (\<lambda>i n. True) = (Some ?r, st', h')"
    using ex_micro_row by (cases "read_packet LittleEndian ?st (\<lambda>i n. True)") auto
  from timestamp_canonicalization [OF hyp] have "unat (timestamp_ns ?r) =
      (unat (ts_sec (next_header LittleEndian ?st)) * 1000000000 +
       unat (ts_usec (next_header LittleEndian ?st)) *
         (if is_nanosecond ?st then 1 else 1000)) mod 2 ^ 64"
    by blast
  with hyp show ?thesis
    by simp
qed

section \<open>Opening and negotiation\<close>

lemma PcapReaderInit_short:
  assumes "open_input w b = Some f0" and "length (unread f0) < 24"
    and "next_alloc_ok h sizeof_pcap_reader_state_t"
  shows "PcapReaderInit w h b = (Inl TruncatedHeader, heap_after h)"
proof -
  have "length (unread f0) div 24 = 0"
    using assms(2) by simp
  then show ?thesis
    using assms by (simp add: PcapReaderInit_def duckdb_malloc_eq fread_short)
qed

lemma PcapReaderInit_header:
  assumes "open_input w b = Some f0" and "24 \<le> length (unread f0)"
    and "next_alloc_ok h sizeof_pcap_reader_state_t"
  shows "PcapReaderInit w h b =
     (case negotiate (load_file_header (host_order w) (take 24 (unread f0))) of
        None \<Rightarrow> (Inl UnsupportedMagic, heap_after h)
      | Some (swap, nano, fh) \<Rightarrow>
          if \<not> next_alloc_ok (heap_after h) (unat (snaplen fh))
          then (Inl AllocationFailure, heap_after (heap_after h))
          else (Inr \<lparr>stream = f0\<lparr>unread := drop 24 (unread f0)\<rparr>, file_header = fh,
                     needs_swap = swap, is_nanosecond = nano,
                     filename = bind_filename b, is_stdin = bind_is_stdin b,
                     packet_buffer = replicate (unat (snaplen fh)) 0,
                     buffer_size = unat (snaplen fh)\<rparr>, heap_after (heap_after h)))"
  using assms
  by (simp add: PcapReaderInit_def duckdb_malloc_eq fread_full split: option.splits)

lemma read_pcap_init_error:
  assumes "PcapReaderBind h0 arg = (Inr b, h)" and "PcapReaderInit w h b = (Inl err, h')"
  shows "read_pcap w h0 max_rows arg = Inl err"
  using assms by (simp add: read_pcap_def)

text \<open>
  C9. When the opened stream holds fewer than the 24 bytes of the capture header,
  PcapReaderInit fails with "Failed to read pcap file header" (TruncatedHeader), and
  the scan surfaces that error instead of rows. (The allocation of the state struct,
  which precedes the read, is taken to succeed.)
\<close>

theorem truncated_capture_header:
  assumes "PcapReaderBind h0 arg = (Inr b, h)"
    and "open_input w b = Some f0"
    and "length (unread f0) < 24"
    and "next_alloc_ok h sizeof_pcap_reader_state_t"
  shows "fst (PcapReaderInit w h b) = Inl TruncatedHeader \<and>
         read_pcap w h0 max_rows arg = Inl TruncatedHeader"
proof -
  have init: "PcapReaderInit w h b = (Inl TruncatedHeader, heap_after h)"
    using assms(2-4) by (rule PcapReaderInit_short)
  from read_pcap_init_error [OF assms(1) init] init show ?thesis
    by simp
qed

lemma ex_not_stdin: "\<not> is_stdin_path ''a.pcap''"
  by (simp add: is_stdin_path_def char_at_def eval_nat_numeral)

lemma ex_bind_ok:
  "PcapReaderBind (\<lambda>i n. True) (Some ''a.pcap'') = (Inr ex_bind, \<lambda>i n. True)"
  by (simp add: PcapReaderBind_def duckdb_malloc_def ex_bind_def c_str_def ex_not_stdin)

theorem truncated_capture_header_witness:
  "fst (PcapReaderInit (ex_world [0xd4, 0xc3, 0xb2, 0xa1, 2, 0, 4]) (\<lambda>i n. True) ex_bind)
     = Inl TruncatedHeader \<and>
   read_pcap (ex_world [0xd4, 0xc3, 0xb2, 0xa1, 2, 0, 4]) (\<lambda>i n. True) 2048 (Some ''a.pcap'')
     = Inl TruncatedHeader"
proof -
  let ?w = "ex_world [0xd4, 0xc3, 0xb2, 0xa1, 2, 0, 4]"
  have 1: "open_input ?w ex_bind = Some \<lparr>unread = [0xd4, 0xc3, 0xb2, 0xa1, 2, 0, 4], eof_ind = False\<rparr>"
    by (simp add: open_input_def ex_world_def ex_bind_def fopen_rb_def)
  have 2: "length (unread \<lparr>unread = [0xd4, 0xc3, 0xb2, 0xa1, 2, 0, 4 :: byte], eof_ind = False\<rparr>) < 24"
    by simp
  have 3: "next_alloc_ok (\<lambda>i n. True) sizeof_pcap_reader_state_t"
    by (simp add: next_alloc_ok_def)
  from truncated_capture_header [OF ex_bind_ok 1 2 3] show ?thesis .
qed

lemma negotiate_cases:
  "negotiate fh =
     (if magic_number fh = 0xa1b2c3d4 then Some (False, False, fh)
      else if magic_number fh = 0xd4c3b2a1
      then Some (True, False, fh\<lparr>snaplen := swap32 (snaplen fh)\<rparr>)
      else if magic_number fh = 0xa1b23c4d then Some (False, True, fh)
      else if magic_number fh = 0x4d3cb2a1
      then Some (True, True, fh\<lparr>snaplen := swap32 (snaplen fh)\<rparr>)
      else None)"
  by (simp add: negotiate_def PCAP_MAGIC_NATIVE_def PCAP_MAGIC_SWAPPED_def
      PCAP_MAGIC_NANO_NATIVE_def PCAP_MAGIC_NANO_SWAPPED_def)

text \<open>
  C1. With a complete 24-byte header (and the allocations of PcapReaderInit
  succeeding), the magic number as the host reads it decides the outcome: 0xa1b2c3d4
  gives a state with no byte swap and microseconds, 0xd4c3b2a1 byte swap and
  microseconds, 0xa1b23c4d no byte swap and nanoseconds, 0x4d3cb2a1 byte swap and
  nanoseconds; every other value fails with "Invalid pcap file magic number"
  (UnsupportedMagic), and the scan then surfaces the error and no rows.
\<close>

theorem negotiation_by_magic:
  assumes "PcapReaderBind h0 arg = (Inr b, h)"
    and "open_input w b = Some f0"
    and "24 \<le> length (unread f0)"
    and "next_alloc_ok h sizeof_pcap_reader_state_t"
    and "\<forall>n. next_alloc_ok (heap_after h) n"
    and "m = magic_number (load_file_header (host_order w) (take 24 (unread f0)))"
  shows "(m = 0xa1b2c3d4 \<longrightarrow>
            (\<exists>st. fst (PcapReaderInit w h b) = Inr st \<and>
                  needs_swap st = False \<and> is_nanosecond st = False)) \<and>
         (m = 0xd4c3b2a1 \<longrightarrow>
            (\<exists>st. fst (PcapReaderInit w h b) = Inr st \<and>
                  needs_swap st = True \<and> is_nanosecond st = False)) \<and>
         (m = 0xa1b23c4d \<longrightarrow>
            (\<exists>st. fst (PcapReaderInit w h b) = Inr st \<and>
                  needs_swap st = False \<and> is_nanosecond st = True)) \<and>
         (m = 0x4d3cb2a1 \<longrightarrow>
            (\<exists>st. fst (PcapReaderInit w h b) = Inr st \<and>
                  needs_swap st = True \<and> is_nanosecond st = True)) \<and>
         (m \<notin> {0xa1b2c3d4, 0xd4c3b2a1, 0xa1b23c4d, 0x4d3cb2a1} \<longrightarrow>
            fst (PcapReaderInit w h b) = Inl UnsupportedMagic \<and>
            read_pcap w h0 max_rows arg = Inl UnsupportedMagic)"
proof -
  let ?fh = "load_file_header (host_order w) (take 24 (unread f0))"
  note init = PcapReaderInit_header [OF assms(2-4)]
  have ok: "\<And>n. next_alloc_ok (heap_after h) n"
    using assms(5) by simp
  have a: "m = 0xa1b2c3d4 \<longrightarrow>
            (\<exists>st. fst (PcapReaderInit w h b) = Inr st \<and>
                  needs_swap st = False \<and> is_nanosecond st = False)"
    by (simp add: init negotiate_cases assms(6) ok)
  have b: "m = 0xd4c3b2a1 \<longrightarrow>
            (\<exists>st. fst (PcapReaderInit w h b) = Inr st \<and>
                  needs_swap st = True \<and> is_nanosecond st = False)"
    by (simp add: init negotiate_cases assms(6) ok)
  have c: "m = 0xa1b23c4d \<longrightarrow>
            (\<exists>st. fst (PcapReaderInit w h b) = Inr st \<and>
                  needs_swap st = False \<and> is_nanosecond st = True)"
    by (simp add: init negotiate_cases assms(6) ok)
  have d: "m = 0x4d3cb2a1 \<longrightarrow>
            (\<exists>st. fst (PcapReaderInit w h b) = Inr st \<and>
                  needs_swap st = True \<and> is_nanosecond st = True)"
    by (simp add: init negotiate_cases assms(6) ok)
  have e: "m \<notin> {0xa1b2c3d4, 0xd4c3b2a1, 0xa1b23c4d, 0x4d3cb2a1} \<longrightarrow>
            fst (PcapReaderInit w h b) = Inl UnsupportedMagic \<and>
            read_pcap w h0 max_rows arg = Inl UnsupportedMagic"
  proof
    assume "m \<notin> {0xa1b2c3d4, 0xd4c3b2a1, 0xa1b23c4d, 0x4d3cb2a1}"
    then have "PcapReaderInit w h b = (Inl UnsupportedMagic, heap_after h)"
      by (simp add: init negotiate_cases assms(6))
    with read_pcap_init_error [OF assms(1) this]
    show "fst (PcapReaderInit w h b) = Inl UnsupportedMagic \<and>
            read_pcap w h0 max_rows arg = Inl UnsupportedMagic"
      by simp
  qed
  from a b c d e show ?thesis
    by blast
qed

lemma ex_open:
  "open_input (ex_world bs) ex_bind = Some \<lparr>unread = bs, eof_ind = False\<rparr>"
  by (simp add: open_input_def ex_world_def ex_bind_def fopen_rb_def)

lemma ex_allocs:
  "next_alloc_ok (\<lambda>i n. True) k" "heap_after (\<lambda>i n. True) = (\<lambda>i n. True)"
  by (simp_all add: next_alloc_ok_def heap_after_def)

theorem negotiation_by_magic_witness:
  "(\<exists>st. fst (PcapReaderInit (ex_world (ex_header [0xa1, 0xb2, 0xc3, 0xd4] [0, 0, 0, 64]))
              (\<lambda>i n. True) ex_bind) = Inr st \<and>
         needs_swap st = True \<and> is_nanosecond st = False) \<and>
   read_pcap (ex_world (ex_header [1, 2, 3, 4] [0, 0, 0, 64])) (\<lambda>i n. True) 2048
     (Some ''a.pcap'') = Inl UnsupportedMagic"
proof -
  let ?A = "ex_header [0xa1, 0xb2, 0xc3, 0xd4] [0, 0, 0, 64]"
  let ?B = "ex_header [1, 2, 3, 4] [0, 0, 0, 64]"
  have len: "24 \<le> length (unread \<lparr>unread = ?A, eof_ind = False\<rparr>)"
    "24 \<le> length (unread \<lparr>unread = ?B, eof_ind = False\<rparr>)"
    by (simp_all add: ex_header_def)
  have all: "\<forall>n. next_alloc_ok (heap_after (\<lambda>i n. True)) n"
    by (simp add: ex_allocs)
  have mA: "(0xd4c3b2a1 :: uint32) =
      magic_number (load_file_header (host_order (ex_world ?A))
        (take 24 (unread \<lparr>unread = ?A, eof_ind = False\<rparr>)))"
    by (simp add: ex_header_def ex_world_def load_file_header_def slice_def load32_def)
  have mB: "(0x04030201 :: uint32) =
      magic_number (load_file_header (host_order (ex_world ?B))
        (take 24 (unread \<lparr>unread = ?B, eof_ind = False\<rparr>)))"
    by (simp add: ex_header_def ex_world_def load_file_header_def slice_def load32_def)
  from negotiation_by_magic [OF ex_bind_ok ex_open len(1) ex_allocs(1) all mA]
  have "\<exists>st. fst (PcapReaderInit (ex_world ?A) (\<lambda>i n. True) ex_bind) = Inr st \<and>
         needs_swap st = True \<and> is_nanosecond st = False"
    by simp
  moreover
  from negotiation_by_magic [OF ex_bind_ok ex_open len(2) ex_allocs(1) all mB, of 2048]
  have "read_pcap (ex_world ?B) (\<lambda>i n. True) 2048 (Some ''a.pcap'') = Inl UnsupportedMagic"
    by simp
  ultimately show ?thesis
    by blast
qed

section \<open>Standard input\<close>

lemma char_at_Nil [simp]: "char_at [] = CHR 0x00"
  by (simp add: char_at_def)

lemma char_at_Cons [simp]: "char_at (c # s) = c"
  by (simp add: char_at_def)

lemma c_str_Nil_iff: "c_str s = [] \<longleftrightarrow> char_at s = CHR 0x00"
  by (cases s) (simp_all add: c_str_def)

lemma c_str_Cons_iff:
  "x \<noteq> CHR 0x00 \<Longrightarrow> c_str s = x # t \<longleftrightarrow> char_at s = x \<and> c_str (tl s) = t"
  by (cases s) (auto simp: c_str_def)

lemma char_diff_eq_0: "int (of_char a) - int (of_char b) = 0 \<longleftrightarrow> a = b"
  by simp

lemma of_char_pos: "c \<noteq> CHR 0x00 \<Longrightarrow> 0 < (of_char c :: nat)"
  using of_char_eq_iff [of c "CHR 0x00", where 'a = nat] by simp

lemma strncmp_eq_0_iff:
  "CHR 0x00 \<notin> set t \<Longrightarrow> strncmp s t (Suc (length t)) = 0 \<longleftrightarrow> c_str s = t"
proof (induction t arbitrary: s)
  case Nil
  show ?case
    by (auto simp: c_str_Nil_iff of_char_pos)
next
  case (Cons x t)
  then have x: "x \<noteq> CHR 0x00" and t: "CHR 0x00 \<notin> set t"
    by auto
  show ?case
    using Cons.IH [OF t, of "tl s"] x
    by (simp add: c_str_Cons_iff del: strncmp.simps(2) add: strncmp.simps(2) [of s "x # t"])
qed

lemma is_stdin_path_iff:
  "is_stdin_path fname \<longleftrightarrow> c_str fname = ''-'' \<or> c_str fname = ''/dev/stdin''"
proof -
  have "strncmp fname ''/dev/stdin'' (Suc (length ''/dev/stdin'')) = 0
          \<longleftrightarrow> c_str fname = ''/dev/stdin''"
    by (rule strncmp_eq_0_iff) simp
  moreover have "Suc (length ''/dev/stdin'') = 11"
    by simp
  ultimately have 1: "strncmp fname ''/dev/stdin'' 11 = 0 \<longleftrightarrow> c_str fname = ''/dev/stdin''"
    by (simp only:)
  have "strncmp fname ''-'' (Suc (length ''-'')) = 0 \<longleftrightarrow> c_str fname = ''-''"
    by (rule strncmp_eq_0_iff) simp
  moreover have "Suc (length ''-'') = 2"
    by simp
  ultimately have 2: "strncmp fname ''-'' 2 = 0 \<longleftrightarrow> c_str fname = ''-''"
    by (simp only:)
  show ?thesis
    unfolding is_stdin_path_def 1 2 by blast
qed

lemma PcapReaderBind_InrD:
  assumes "PcapReaderBind h0 arg = (Inr b, h)"
  shows "\<exists>fname. arg = Some fname \<and> bind_filename b = c_str fname \<and>
           bind_is_stdin b = is_stdin_path fname"
  using assms
  by (auto simp: PcapReaderBind_def duckdb_malloc_eq split: option.splits if_splits)

lemma PcapReaderInit_InrD:
  assumes "PcapReaderInit w h b = (Inr st, h')"
  shows "\<exists>f0. open_input w b = Some f0 \<and> 24 \<le> length (unread f0) \<and>
           stream st = f0\<lparr>unread := drop 24 (unread f0)\<rparr> \<and>
           is_stdin st = bind_is_stdin b \<and> filename st = bind_filename b \<and>
           packet_buffer st = replicate (buffer_size st) 0 \<and>
           buffer_size st = unat (snaplen (file_header st)) \<and>
           negotiate (load_file_header (host_order w) (take 24 (unread f0)))
             = Some (needs_swap st, is_nanosecond st, file_header st)"
proof -
  have a: "next_alloc_ok h sizeof_pcap_reader_state_t"
    using assms by (auto simp: PcapReaderInit_def duckdb_malloc_eq split: if_splits)
  then obtain f0 where f0: "open_input w b = Some f0"
    using assms by (auto simp: PcapReaderInit_def duckdb_malloc_eq split: option.splits)
  have len: "24 \<le> length (unread f0)"
    using assms PcapReaderInit_short [OF f0 _ a] by (cases "24 \<le> length (unread f0)") auto
  from assms show ?thesis
    unfolding PcapReaderInit_header [OF f0 len a]
    using f0 len by (auto split: option.splits if_splits)
qed

text \<open>
  C10. The bind step marks the input as standard input exactly when the path, as a C
  string, is "-" or "/dev/stdin": both comparisons include the terminating NUL, so a
  longer path such as "/dev/stdin2" is not standard input and is opened with fopen.
  A state marked as standard input reads the process's stdin stream, and its
  destructor does not close the stream; any other state reads the named file and
  its destructor closes it.
\<close>

theorem stdin_exactly_dash_or_dev_stdin:
  assumes "PcapReaderBind h0 (Some fname) = (Inr b, h)"
    and "PcapReaderInit w h b = (Inr st, h')"
  shows "(is_stdin st \<longleftrightarrow> c_str fname = ''-'' \<or> c_str fname = ''/dev/stdin'') \<and>
         (is_stdin st \<longrightarrow>
            unread (stream st) = drop 24 (unread (stdin_stream w)) \<and>
            \<not> closes_stream (PcapReaderInitDataFree (Some st))) \<and>
         (\<not> is_stdin st \<longrightarrow>
            (\<exists>bs. files w (c_str fname) = Some bs \<and> unread (stream st) = drop 24 bs) \<and>
            closes_stream (PcapReaderInitDataFree (Some st))) \<and>
         \<not> is_stdin_path ''/dev/stdin2'' \<and> \<not> is_stdin_path ''-x'' \<and>
         is_stdin_path ''/dev/stdin'' \<and> is_stdin_path ''-''"
proof -
  from PcapReaderBind_InrD [OF assms(1)]
  have b: "bind_filename b = c_str fname" "bind_is_stdin b = is_stdin_path fname"
    by simp_all
  from PcapReaderInit_InrD [OF assms(2)] obtain f0 where
    f0: "open_input w b = Some f0" "stream st = f0\<lparr>unread := drop 24 (unread f0)\<rparr>"
      "is_stdin st = bind_is_stdin b"
    by blast
  have 1: "is_stdin st \<longleftrightarrow> c_str fname = ''-'' \<or> c_str fname = ''/dev/stdin''"
    by (simp add: f0(3) b(2) is_stdin_path_iff)
  have 2: "is_stdin st \<longrightarrow>
            unread (stream st) = drop 24 (unread (stdin_stream w)) \<and>
            \<not> closes_stream (PcapReaderInitDataFree (Some st))"
    using f0 by (auto simp: open_input_def PcapReaderInitDataFree_def)
  have 3: "\<not> is_stdin st \<longrightarrow>
            (\<exists>bs. files w (c_str fname) = Some bs \<and> unread (stream st) = drop 24 bs) \<and>
            closes_stream (PcapReaderInitDataFree (Some st))"
    using f0 b(1)
    by (auto simp: open_input_def PcapReaderInitDataFree_def fopen_rb_def split: option.splits)
  have 4: "\<not> is_stdin_path ''/dev/stdin2''" "\<not> is_stdin_path ''-x''"
    "is_stdin_path ''/dev/stdin''" "is_stdin_path ''-''"
    by (simp_all add: is_stdin_path_iff c_str_def)
  from 1 2 3 4 show ?thesis
    by blast
qed

lemma ex_bind_dash:
  "PcapReaderBind (\<lambda>i n. True) (Some ''-'')
     = (Inr \<lparr>bind_filename = ''-'', bind_is_stdin = True\<rparr>, \<lambda>i n. True)"
  by (simp add: PcapReaderBind_def duckdb_malloc_def c_str_def is_stdin_path_iff)

lemma ex_init_stdin:
  "\<exists>st h'. PcapReaderInit (ex_stdin_world (ex_header [0xd4, 0xc3, 0xb2, 0xa1] [4, 0, 0, 0]))
      (\<lambda>i n. True) \<lparr>bind_filename = ''-'', bind_is_stdin = True\<rparr> = (Inr st, h')"
  by (simp add: PcapReaderInit_def duckdb_malloc_def open_input_def ex_stdin_world_def
      ex_header_def fread_def load_file_header_def slice_def load32_def load16_def
      negotiate_cases)

theorem stdin_exactly_dash_or_dev_stdin_witness:
  "\<exists>b h st h'.
     PcapReaderBind (\<lambda>i n. True) (Some ''-'') = (Inr b, h) \<and>
     PcapReaderInit (ex_stdin_world (ex_header [0xd4, 0xc3, 0xb2, 0xa1] [4, 0, 0, 0])) h b
       = (Inr st, h') \<and>
     is_stdin st \<and> \<not> closes_stream (PcapReaderInitDataFree (Some st))"
proof -
  let ?w = "ex_stdin_world (ex_header [0xd4, 0xc3, 0xb2, 0xa1] [4, 0, 0, 0])"
  let ?b = "\<lparr>bind_filename = ''-'', bind_is_stdin = True\<rparr>"
  from ex_init_stdin obtain st h' where
    init: "PcapReaderInit ?w (\<lambda>i n. True) ?b = (Inr st, h')"
    by blast
  from stdin_exactly_dash_or_dev_stdin [OF ex_bind_dash init]
  have "is_stdin st \<and> \<not> closes_stream (PcapReaderInitDataFree (Some st))"
    by (simp add: c_str_def)
  with ex_bind_dash init show ?thesis
    by blast
qed

section \<open>Zero-length captures\<close>

lemma read_loop_step:
  assumes "length out < max_rows" and "\<not> feof (stream st)"
    and "read_packet e st h = (Some r, st', h')"
  shows "read_loop e max_rows st h out = read_loop e max_rows st' h' (out @ [r])"
  using assms by (simp add: read_loop.simps [of e max_rows st h out])

lemma read_loop_break:
  assumes "length out < max_rows" and "\<not> feof (stream st)"
    and "read_packet e st h = (None, st', h')"
  shows "read_loop e max_rows st h out = (out, st', h')"
  using assms by (simp add: read_loop.simps [of e max_rows st h out])

lemma read_loop_stop:
  assumes "\<not> length out < max_rows \<or> feof (stream st)"
  shows "read_loop e max_rows st h out = (out, st, h)"
  using assms by (auto simp: read_loop.simps [of e max_rows st h out])

text \<open>
  C8. A record whose header announces a captured length of 0 is produced as a row
  with \<open>capture_len = 0\<close> and an empty blob, whatever follows it in the stream: the
  zero-byte fread returns 0, which equals the captured length, so the loop does not
  break; the end-of-file indicator is left as it was, only the 16 header bytes are
  consumed, no allocation is made, and the loop goes on with the row appended.
\<close>

theorem zero_length_capture:
  assumes "16 \<le> length (unread (stream st))"
    and "caplen (next_header e st) = 0"
    and "r = \<lparr>timestamp_ns = timestamp_ns_of (is_nanosecond st) (next_header e st),
               original_len = len (next_header e st), capture_len = 0, data = []\<rparr>"
    and "st' = st\<lparr>stream := (stream st)\<lparr>unread := drop 16 (unread (stream st))\<rparr>\<rparr>"
  shows "read_packet e st h = (Some r, st', h) \<and>
         eof_ind (stream st') = eof_ind (stream st) \<and>
         (length out < max_rows \<and> \<not> feof (stream st) \<longrightarrow>
            read_loop e max_rows st h out = read_loop e max_rows st' h (out @ [r]))"
proof -
  have rp: "read_packet e st h = (Some r, st', h)"
    using assms
    by (simp add: read_packet_header read_payload_def grow_buffer_def fread_zero)
  have "eof_ind (stream st') = eof_ind (stream st)"
    by (simp add: assms(4))
  moreover have "length out < max_rows \<and> \<not> feof (stream st) \<longrightarrow>
      read_loop e max_rows st h out = read_loop e max_rows st' h (out @ [r])"
    using read_loop_step [OF _ _ rp] by blast
  ultimately show ?thesis
    using rp by blast
qed

lemma ex_zero_rows:
  "fst (read_loop LittleEndian 2048 (ex_state False False 4 ex_zero_stream) (\<lambda>i n. True) [])
     = [\<lparr>timestamp_ns = 1000000000, original_len = 60, capture_len = 0, data = []\<rparr>,
        \<lparr>timestamp_ns = 2000000000, original_len = 1, capture_len = 1, data = [0x7f]\<rparr>]"
  by (simp add: read_loop.simps eval_defs feof_def ex_zero_stream_def)

theorem zero_length_capture_witness:
  "read_loop LittleEndian 2048 (ex_state False False 4 ex_zero_stream) (\<lambda>i n. True) []
     = read_loop LittleEndian 2048
         (ex_state False False 4 [2, 0, 0, 0, 0, 0, 0, 0, 1, 0, 0, 0, 1, 0, 0, 0, 0x7f])
         (\<lambda>i n. True)
         [\<lparr>timestamp_ns = 1000000000, original_len = 60, capture_len = 0, data = []\<rparr>] \<and>
   fst (read_loop LittleEndian 2048 (ex_state False False 4 ex_zero_stream) (\<lambda>i n. True) [])
     = [\<lparr>timestamp_ns = 1000000000, original_len = 60, capture_len = 0, data = []\<rparr>,
        \<lparr>timestamp_ns = 2000000000, original_len = 1, capture_len = 1, data = [0x7f]\<rparr>]"
proof -
  let ?st = "ex_state False False 4 ex_zero_stream"
  let ?st' = "ex_state False False 4 [2, 0, 0, 0, 0, 0, 0, 0, 1, 0, 0, 0, 1, 0, 0, 0, 0x7f]"
  let ?r = "\<lparr>timestamp_ns = 1000000000, original_len = 60, capture_len = 0, data = []\<rparr>"
  have 1: "16 \<le> length (unread (stream ?st))"
    by (simp add: ex_state_def ex_zero_stream_def)
  have 2: "caplen (next_header LittleEndian ?st) = 0"
    by (simp add: eval_defs ex_zero_stream_def)
  have 3: "?r = \<lparr>timestamp_ns = timestamp_ns_of (is_nanosecond ?st) (next_header LittleEndian ?st),
               original_len = len (next_header LittleEndian ?st), capture_len = 0, data = []\<rparr>"
    by (simp add: eval_defs ex_zero_stream_def)
  have 4: "?st' = ?st\<lparr>stream := (stream ?st)\<lparr>unread := drop 16 (unread (stream ?st))\<rparr>\<rparr>"
    by (simp add: ex_state_def ex_zero_stream_def)
  have 5: "length ([] :: row list) < 2048 \<and> \<not> feof (stream ?st)"
    by (simp add: feof_def ex_state_def)
  from zero_length_capture [OF 1 2 3 4, of "\<lambda>i n. True" "[]" 2048] 5
  have "read_loop LittleEndian 2048 ?st (\<lambda>i n. True) []
          = read_loop LittleEndian 2048 ?st' (\<lambda>i n. True) ([] @ [?r])"
    by blast
  with ex_zero_rows show ?thesis
    by simp
qed

section \<open>The payload buffer\<close>

lemma grow_buffer_size:
  assumes "grow_buffer want st h = (Some st1, h1)"
  shows "buffer_size st1 = (if buffer_size st < want then want else buffer_size st) \<and>
         stream st1 = stream st \<and>
         (length (packet_buffer st) = buffer_size st \<longrightarrow>
            length (packet_buffer st1) = buffer_size st1)"
  using assms by (auto simp: grow_buffer_def duckdb_malloc_eq split: if_splits)

lemma read_payload_buffer:
  assumes "read_payload ph st h = (ro, st', h')"
  shows "buffer_size st' =
           (if buffer_size st < unat (caplen ph) \<and> next_alloc_ok h (unat (caplen ph))
            then unat (caplen ph) else buffer_size st) \<and>
         (length (packet_buffer st) = buffer_size st \<longrightarrow>
            length (packet_buffer st') = buffer_size st')"
proof (cases "buffer_size st < unat (caplen ph) \<and> \<not> next_alloc_ok h (unat (caplen ph))")
  case True
  with assms show ?thesis
    by (auto simp: read_payload_alloc_fails)
next
  case False
  then have ok: "buffer_size st < unat (caplen ph) \<longrightarrow> next_alloc_ok h (unat (caplen ph))"
    by blast
  let ?st1 = "if buffer_size st < unat (caplen ph)
              then st\<lparr>packet_buffer := replicate (unat (caplen ph)) 0,
                      buffer_size := unat (caplen ph)\<rparr> else st"
  have cap: "unat (caplen ph) \<le> buffer_size ?st1"
    by simp
  show ?thesis
  proof (cases "unat (caplen ph) \<le> length (unread (stream st))")
    case True
    with assms ok show ?thesis
      by (auto simp: read_payload_def grow_buffer_ok [of st "unat (caplen ph)" h] fread_bytes
          Let_def split: if_splits)
  next
    case False
    then have short: "length (unread (stream st)) < unat (caplen ph)"
      by simp
    with assms ok show ?thesis
      by (auto simp: read_payload_def grow_buffer_ok [of st "unat (caplen ph)" h]
          fread_bytes_short Let_def split: if_splits)
  qed
qed

lemma read_packet_buffer:
  assumes "read_packet e st h = (ro, st', h')"
  shows "buffer_size st' =
           (if 16 \<le> length (unread (stream st)) \<and>
               buffer_size st < unat (caplen (next_header e st)) \<and>
               next_alloc_ok h (unat (caplen (next_header e st)))
            then unat (caplen (next_header e st)) else buffer_size st) \<and>
         (length (packet_buffer st) = buffer_size st \<longrightarrow>
            length (packet_buffer st') = buffer_size st')"
proof (cases "16 \<le> length (unread (stream st))")
  case True
  let ?st1 = "st\<lparr>stream := (stream st)\<lparr>unread := drop 16 (unread (stream st))\<rparr>\<rparr>"
  from assms True have "read_payload (next_header e st) ?st1 h = (ro, st', h')"
    by (simp add: read_packet_header)
  from read_payload_buffer [OF this] True show ?thesis
    by simp
next
  case False
  with assms show ?thesis
    by (auto simp: read_packet_short_header)
qed

lemma read_loop_buffer:
  "read_loop e max_rows st h out = (rows, st', h') \<Longrightarrow>
     buffer_size st \<le> buffer_size st' \<and> take (length out) rows = out \<and>
     (length (packet_buffer st) = buffer_size st \<longrightarrow>
        length (packet_buffer st') = buffer_size st')"
proof (induction e max_rows st h out rule: read_loop.induct)
  case (1 e max_rows st h out)
  show ?case
  proof (cases "length out < max_rows \<and> \<not> feof (stream st)")
    case False
    with "1.prems" show ?thesis
      by (simp add: read_loop_stop)
  next
    case True
    obtain ro st1 h1 where rp: "read_packet e st h = (ro, st1, h1)"
      by (cases "read_packet e st h") auto
    note buf = read_packet_buffer [OF rp]
    show ?thesis
    proof (cases ro)
      case None
      with True rp "1.prems" have "rows = out" "st' = st1"
        by (simp_all add: read_loop_break)
      with buf show ?thesis
        by (simp split: if_splits)
    next
      case (Some r)
      with True rp "1.prems" have rec: "read_loop e max_rows st1 h1 (out @ [r]) = (rows, st', h')"
        by (simp add: read_loop_step)
      from "1.IH" [OF True rp [symmetric] Some refl rec]
      have ih: "buffer_size st1 \<le> buffer_size st'" "take (length (out @ [r])) rows = out @ [r]"
        "length (packet_buffer st1) = buffer_size st1 \<longrightarrow>
           length (packet_buffer st') = buffer_size st'"
        by simp_all
      have "take (length out) (take (length (out @ [r])) rows) = out"
        unfolding ih(2) by simp
      then have "take (length out) rows = out"
        by (simp add: min_def)
      with ih buf show ?thesis
        by (simp split: if_splits)
    qed
  qed
qed

lemma PcapReaderFunction_Some:
  "PcapReaderFunction e max_rows (Some st) h =
     (case read_loop e max_rows st h [] of (rows, st', h') \<Rightarrow> (rows, Some st', h'))"
  by (simp add: PcapReaderFunction_def)

lemma pull_all_buffer:
  "pull_all e max_rows sto h = (rows, sto', h') \<Longrightarrow> sto = Some st \<Longrightarrow>
     \<exists>st'. sto' = Some st' \<and> buffer_size st \<le> buffer_size st'"
proof (induction e max_rows sto h arbitrary: rows st rule: pull_all.induct)
  case (1 e max_rows sto h)
  obtain batch st1 h1 where rl: "read_loop e max_rows st h [] = (batch, st1, h1)"
    by (cases "read_loop e max_rows st h []") auto
  then have pf: "PcapReaderFunction e max_rows sto h = (batch, Some st1, h1)"
    using "1.prems"(2) by (simp add: PcapReaderFunction_Some)
  from read_loop_buffer [OF rl] have le: "buffer_size st \<le> buffer_size st1"
    by simp
  show ?case
  proof (cases "batch = []")
    case True
    with pf "1.prems"(1) have "sto' = Some st1"
      by (simp add: pull_all.simps [of e max_rows sto h])
    with le show ?thesis
      by simp
  next
    case False
    obtain rest sto2 h2 where rec: "pull_all e max_rows (Some st1) h1 = (rest, sto2, h2)"
      by (cases "pull_all e max_rows (Some st1) h1") auto
    with pf False "1.prems"(1) have "sto' = sto2" "h' = h2"
      by (simp_all add: pull_all.simps [of e max_rows sto h])
    with rec have rec': "pull_all e max_rows (Some st1) h1 = (rest, sto', h')"
      by simp
    from "1.IH" [OF pf [symmetric] refl False rec' refl]
    obtain st2 where "sto' = Some st2" "buffer_size st1 \<le> buffer_size st2"
      by blast
    then show ?thesis
      using le by simp
  qed
qed

text \<open>
  C7. The capacity starts at the snapshot length of the negotiated header, with a
  buffer of that many bytes. One pass of the loop body leaves the capacity as it was
  unless a complete header announces a captured length above it and the allocation
  is granted; then the capacity is exactly the captured length. So the capacity never
  decreases, over one pass, over a whole batch and over the whole scan, and the
  buffer always has \<open>buffer_size\<close> bytes. A row's blob is exactly the payload bytes
  of its record in the stream, whether or not the buffer was replaced for it, and the
  rows already in the batch are not touched by later passes.
\<close>

theorem buffer_capacity_monotone:
  assumes "read_packet e st h = (ro, st', h')"
    and "want = unat (caplen (next_header e st))"
  shows "buffer_size st \<le> buffer_size st' \<and>
         buffer_size st' =
           (if 16 \<le> length (unread (stream st)) \<and> buffer_size st < want \<and> next_alloc_ok h want
            then want else buffer_size st) \<and>
         (length (packet_buffer st) = buffer_size st \<longrightarrow>
            length (packet_buffer st') = buffer_size st') \<and>
         (\<forall>r. ro = Some r \<longrightarrow> data r = take want (drop 16 (unread (stream st)))) \<and>
         (\<forall>rows st2 h2. read_loop e max_rows st h out = (rows, st2, h2) \<longrightarrow>
            buffer_size st \<le> buffer_size st2 \<and> take (length out) rows = out) \<and>
         (\<forall>rows sto3 h3. pull_all e max_rows (Some st) h = (rows, sto3, h3) \<longrightarrow>
            (\<exists>st3. sto3 = Some st3 \<and> buffer_size st \<le> buffer_size st3)) \<and>
         (\<forall>w b h0 st0 h1. PcapReaderInit w h0 b = (Inr st0, h1) \<longrightarrow>
            buffer_size st0 = unat (snaplen (file_header st0)) \<and>
            length (packet_buffer st0) = buffer_size st0)"
proof -
  note buf = read_packet_buffer [OF assms(1)]
  have 1: "buffer_size st' =
           (if 16 \<le> length (unread (stream st)) \<and> buffer_size st < want \<and> next_alloc_ok h want
            then want else buffer_size st)"
    using buf by (simp add: assms(2))
  then have 2: "buffer_size st \<le> buffer_size st'"
    by (simp split: if_splits)
  have 3: "length (packet_buffer st) = buffer_size st \<longrightarrow>
            length (packet_buffer st') = buffer_size st'"
    using buf by simp
  have 4: "\<forall>r. ro = Some r \<longrightarrow> data r = take want (drop 16 (unread (stream st)))"
  proof (intro allI impI)
    fix r
    assume "ro = Some r"
    with assms(1) have "read_packet e st h = (Some r, st', h')"
      by simp
    from read_packet_row [OF this] show "data r = take want (drop 16 (unread (stream st)))"
      by (simp add: assms(2))
  qed
  have 5: "\<forall>rows st2 h2. read_loop e max_rows st h out = (rows, st2, h2) \<longrightarrow>
            buffer_size st \<le> buffer_size st2 \<and> take (length out) rows = out"
    using read_loop_buffer by blast
  have 6: "\<forall>rows sto3 h3. pull_all e max_rows (Some st) h = (rows, sto3, h3) \<longrightarrow>
            (\<exists>st3. sto3 = Some st3 \<and> buffer_size st \<le> buffer_size st3)"
    using pull_all_buffer by blast
  have 7: "\<forall>w b h0 st0 h1. PcapReaderInit w h0 b = (Inr st0, h1) \<longrightarrow>
            buffer_size st0 = unat (snaplen (file_header st0)) \<and>
            length (packet_buffer st0) = buffer_size st0"
  proof (intro allI impI)
    fix w b h0 st0 h1
    assume "PcapReaderInit w h0 b = (Inr st0, h1)"
    from PcapReaderInit_InrD [OF this]
    show "buffer_size st0 = unat (snaplen (file_header st0)) \<and>
            length (packet_buffer st0) = buffer_size st0"
      by auto
  qed
  from 1 2 3 4 5 6 7 show ?thesis
    by blast
qed

lemma ex_grow_rows:
  "read_loop LittleEndian 2048 (ex_state False False 2 ex_grow_stream) (\<lambda>i n. True) []
     = ([\<lparr>timestamp_ns = 1000000000, original_len = 2, capture_len = 2, data = [0x11, 0x12]\<rparr>,
         \<lparr>timestamp_ns = 2000000000, original_len = 2, capture_len = 2, data = [0x21, 0x22]\<rparr>,
         \<lparr>timestamp_ns = 3000000000, original_len = 9, capture_len = 5,
           data = [0x31, 0x32, 0x33, 0x34, 0x35]\<rparr>],
        (ex_state False False 2 [])
          \<lparr>stream := \<lparr>unread = [], eof_ind = True\<rparr>,
           packet_buffer := [0x31, 0x32, 0x33, 0x34, 0x35], buffer_size := 5\<rparr>,
        \<lambda>i n. True)"
  by (simp add: read_loop.simps eval_defs feof_def ex_grow_stream_def)

theorem buffer_capacity_monotone_witness:
  "\<exists>ro st' h'.
     read_packet LittleEndian
       (ex_state False False 2
          [3, 0, 0, 0, 0, 0, 0, 0, 5, 0, 0, 0, 9, 0, 0, 0, 0x31, 0x32, 0x33, 0x34, 0x35])
       (\<lambda>i n. True) = (ro, st', h') \<and>
     buffer_size st' = 5 \<and>
     fst (read_loop LittleEndian 2048 (ex_state False False 2 ex_grow_stream) (\<lambda>i n. True) [])
       = [\<lparr>timestamp_ns = 1000000000, original_len = 2, capture_len = 2, data = [0x11, 0x12]\<rparr>,
          \<lparr>timestamp_ns = 2000000000, original_len = 2, capture_len = 2, data = [0x21, 0x22]\<rparr>,
          \<lparr>timestamp_ns = 3000000000, original_len = 9, capture_len = 5,
            data = [0x31, 0x32, 0x33, 0x34, 0x35]\<rparr>]"
proof -
  let ?st = "ex_state False False 2
     [3, 0, 0, 0, 0, 0, 0, 0, 5, 0, 0, 0, 9, 0, 0, 0, 0x31, 0x32, 0x33, 0x34, 0x35]"
  obtain ro st' h' where rp: "read_packet LittleEndian ?st (\<lambda>i n. True) = (ro, st', h')"
    by (cases "read_packet LittleEndian ?st (\<lambda>i n. True)") auto
  have want: "unat (caplen (next_header LittleEndian ?st)) = 5"
    by (simp add: eval_defs)
  from buffer_capacity_monotone [OF rp refl]
  have "buffer_size st' =
      (if 16 \<le> length (unread (stream ?st)) \<and>
          buffer_size ?st < unat (caplen (next_header LittleEndian ?st)) \<and>
          next_alloc_ok (\<lambda>i n. True) (unat (caplen (next_header LittleEndian ?st)))
       then unat (caplen (next_header LittleEndian ?st)) else buffer_size ?st)"
    by blast
  then have "buffer_size st' = 5"
    unfolding want by (simp add: ex_state_def next_alloc_ok_def)
  with rp ex_grow_rows show ?thesis
    by simp
qed

section \<open>A snapshot length of zero\<close>

lemma heap_after_grant_all [simp]: "heap_after grant_all = grant_all"
  by (rule ext)+ (simp add: heap_after_def grant_all_def)

lemma next_alloc_ok_grant_all [simp]: "next_alloc_ok grant_all n"
  by (simp add: next_alloc_ok_def grant_all_def)

text \<open>
  C6. With a valid magic number and a snapshot length of 0, PcapReaderInit succeeds
  (its two allocations, of the state struct and of the zero-byte buffer, being
  granted, as for every other snapshot length); the state then has capacity 0. A
  following complete record with a nonzero captured length is decoded to its row (the
  allocation of that many bytes being granted), and the capacity is then exactly the
  captured length.
\<close>

theorem snaplen_zero_grows:
  assumes "open_input w b = Some f0"
    and "24 \<le> length (unread f0)"
    and "negotiate (load_file_header (host_order w) (take 24 (unread f0))) = Some (swap, nano, fh)"
    and "snaplen fh = 0"
    and "next_alloc_ok h sizeof_pcap_reader_state_t"
    and "next_alloc_ok (heap_after h) 0"
  shows "\<exists>st. PcapReaderInit w h b = (Inr st, heap_after (heap_after h)) \<and>
           buffer_size st = 0 \<and> needs_swap st = swap \<and> is_nanosecond st = nano \<and>
           unread (stream st) = drop 24 (unread f0) \<and>
           (\<forall>e h2. 16 + unat (caplen (next_header e st)) \<le> length (unread (stream st)) \<and>
                   0 < unat (caplen (next_header e st)) \<and>
                   next_alloc_ok h2 (unat (caplen (next_header e st))) \<longrightarrow>
              (\<exists>st'. read_packet e st h2 =
                 (Some \<lparr>timestamp_ns = timestamp_ns_of nano (next_header e st),
                        original_len = len (next_header e st),
                        capture_len = caplen (next_header e st),
                        data = take (unat (caplen (next_header e st)))
                                 (drop 16 (unread (stream st)))\<rparr>,
                  st', heap_after h2) \<and>
                 buffer_size st' = unat (caplen (next_header e st))))"
proof -
  let ?st = "\<lparr>stream = f0\<lparr>unread := drop 24 (unread f0)\<rparr>, file_header = fh,
              needs_swap = swap, is_nanosecond = nano,
              filename = bind_filename b, is_stdin = bind_is_stdin b,
              packet_buffer = replicate (unat (snaplen fh)) 0,
              buffer_size = unat (snaplen fh)\<rparr>"
  have init: "PcapReaderInit w h b = (Inr ?st, heap_after (heap_after h))"
    unfolding PcapReaderInit_header [OF assms(1,2,5)]
    using assms(3,4,6) by simp
  have grow: "\<exists>st'. read_packet e ?st h2 =
                 (Some \<lparr>timestamp_ns = timestamp_ns_of nano (next_header e ?st),
                        original_len = len (next_header e ?st),
                        capture_len = caplen (next_header e ?st),
                        data = take (unat (caplen (next_header e ?st)))
                                 (drop 16 (unread (stream ?st)))\<rparr>,
                  st', heap_after h2) \<and>
                 buffer_size st' = unat (caplen (next_header e ?st))"
    if "16 + unat (caplen (next_header e ?st)) \<le> length (unread (stream ?st))"
      and "0 < unat (caplen (next_header e ?st))"
      and "next_alloc_ok h2 (unat (caplen (next_header e ?st)))" for e h2
  proof -
    have "buffer_size ?st < unat (caplen (next_header e ?st)) \<longrightarrow>
            next_alloc_ok h2 (unat (caplen (next_header e ?st)))"
      using that(3) by simp
    from read_packet_complete [OF that(1) this] that(2) assms(4) show ?thesis
      by auto
  qed
  show ?thesis
    apply (rule exI [of _ ?st])
    using init grow assms(4) by simp
qed

theorem snaplen_zero_grows_witness:
  "\<exists>st st'.
     PcapReaderInit (ex_world ex_snap0_file) grant_all ex_bind = (Inr st, grant_all) \<and>
     buffer_size st = 0 \<and>
     read_packet LittleEndian st grant_all =
       (Some \<lparr>timestamp_ns = 1000000000, original_len = 3, capture_len = 3,
              data = [7, 8, 9]\<rparr>, st', grant_all) \<and>
     buffer_size st' = 3"
proof -
  let ?w = "ex_world ex_snap0_file"
  let ?f0 = "\<lparr>unread = ex_snap0_file, eof_ind = False\<rparr>"
  let ?fh = "\<lparr>magic_number = 0xa1b2c3d4, version_major = 2, version_minor = 4, thiszone = 0,
             sigfigs = 0, snaplen = 0, network = 1\<rparr>"
  have len: "24 \<le> length (unread ?f0)"
    by (simp add: ex_snap0_file_def ex_header_def)
  have neg: "negotiate (load_file_header (host_order ?w) (take 24 (unread ?f0)))
               = Some (False, False, ?fh)"
    by (simp add: ex_snap0_file_def ex_header_def ex_world_def load_file_header_def slice_def
        load32_def load16_def negotiate_cases)
  have snap: "snaplen ?fh = 0"
    by simp
  have ok1: "next_alloc_ok grant_all sizeof_pcap_reader_state_t"
    and ok2: "next_alloc_ok (heap_after grant_all) 0"
    by simp_all
  from snaplen_zero_grows [OF ex_open len neg snap ok1 ok2]
  obtain st where st: "PcapReaderInit ?w grant_all ex_bind = (Inr st, grant_all)"
      "buffer_size st = 0" "needs_swap st = False"
      "unread (stream st) = drop 24 ex_snap0_file"
    and step: "\<And>e h2. 16 + unat (caplen (next_header e st)) \<le> length (unread (stream st)) \<Longrightarrow>
                   0 < unat (caplen (next_header e st)) \<Longrightarrow>
                   next_alloc_ok h2 (unat (caplen (next_header e st))) \<Longrightarrow>
              (\<exists>st'. read_packet e st h2 =
                 (Some \<lparr>timestamp_ns = timestamp_ns_of False (next_header e st),
                        original_len = len (next_header e st),
                        capture_len = caplen (next_header e st),
                        data = take (unat (caplen (next_header e st)))
                                 (drop 16 (unread (stream st)))\<rparr>,
                  st', heap_after h2) \<and>
                 buffer_size st' = unat (caplen (next_header e st)))"
    by auto
  have nh: "next_header LittleEndian st = \<lparr>ts_sec = 1, ts_usec = 0, caplen = 3, len = 3\<rparr>"
    by (simp add: next_header_def st(3,4) ex_snap0_file_def ex_header_def
        load_packet_header_def slice_def load32_def)
  have "\<exists>st'. read_packet LittleEndian st grant_all =
       (Some \<lparr>timestamp_ns = 1000000000, original_len = 3, capture_len = 3,
              data = [7, 8, 9]\<rparr>, st', grant_all) \<and>
     buffer_size st' = 3"
    using step [of LittleEndian grant_all]
    by (simp add: nh st(4) ex_snap0_file_def ex_header_def timestamp_ns_of_def)
  with st show ?thesis
    by blast
qed

section \<open>Empty batches\<close>

lemma read_payload_None_cases:
  assumes "read_payload ph st h = (None, st', h')"
  shows "(buffer_size st < unat (caplen ph) \<and> \<not> next_alloc_ok h (unat (caplen ph)) \<and>
            st' = st \<and> h' = heap_after h) \<or>
         (unread (stream st') = [] \<and> eof_ind (stream st'))"
proof (cases "buffer_size st < unat (caplen ph) \<and> \<not> next_alloc_ok h (unat (caplen ph))")
  case True
  with assms show ?thesis
    by (simp add: read_payload_alloc_fails)
next
  case False
  then have ok: "buffer_size st < unat (caplen ph) \<longrightarrow> next_alloc_ok h (unat (caplen ph))"
    by blast
  show ?thesis
  proof (cases "unat (caplen ph) \<le> length (unread (stream st))")
    case True
    from read_payload_complete [OF True ok] assms show ?thesis
      by auto
  next
    case False
    then have "length (unread (stream st)) < unat (caplen ph)"
      by simp
    from read_payload_short [OF this ok] assms show ?thesis
      by auto
  qed
qed

lemma read_packet_None_cases:
  assumes "read_packet e st h = (None, st', h')"
  shows "(16 \<le> length (unread (stream st)) \<and>
          buffer_size st < unat (caplen (next_header e st)) \<and>
          \<not> next_alloc_ok h (unat (caplen (next_header e st))) \<and>
          st' = st\<lparr>stream := (stream st)\<lparr>unread := drop 16 (unread (stream st))\<rparr>\<rparr> \<and>
          h' = heap_after h) \<or>
         (unread (stream st') = [] \<and> eof_ind (stream st'))"
proof (cases "16 \<le> length (unread (stream st))")
  case True
  let ?st1 = "st\<lparr>stream := (stream st)\<lparr>unread := drop 16 (unread (stream st))\<rparr>\<rparr>"
  from assms True have "read_payload (next_header e st) ?st1 h = (None, st', h')"
    by (simp add: read_packet_header)
  from read_payload_None_cases [OF this] True show ?thesis
    by auto
next
  case False
  with assms show ?thesis
    by (auto simp: read_packet_short_header)
qed

lemma read_loop_nonempty:
  assumes "read_loop e max_rows st h out = (rows, st', h')" and "out \<noteq> []"
  shows "rows \<noteq> []"
  using read_loop_buffer [OF assms(1)] assms(2) by auto

lemma shift_grant_none [simp]: "(\<lambda>i. grant_none (Suc i)) = grant_none"
  by (rule ext)+ (simp add: grant_none_def)

lemma shift_grant_all [simp]: "(\<lambda>i. grant_all (Suc i)) = grant_all"
  by (rule ext)+ (simp add: grant_all_def)

lemma heap_after_grant_two: "heap_after (heap_after grant_two) = grant_none"
  by (rule ext)+ (simp add: heap_after_def grant_two_def grant_none_def)

lemma ex_refused_init:
  "PcapReaderInit (ex_world ex_refused_file) grant_two ex_bind
     = (Inr (ex_refused_state (drop 24 ex_refused_file)), grant_none)"
proof -
  have len: "24 \<le> length (unread \<lparr>unread = ex_refused_file, eof_ind = False\<rparr>)"
    by (simp add: ex_refused_file_def ex_header_def)
  have ok: "next_alloc_ok grant_two sizeof_pcap_reader_state_t"
    by (simp add: next_alloc_ok_def grant_two_def)
  show ?thesis
    unfolding PcapReaderInit_header [OF ex_open len ok] heap_after_grant_two
    by (simp add: ex_refused_file_def ex_header_def ex_world_def ex_bind_def
        load_file_header_def slice_def load32_def load16_def negotiate_cases
        ex_refused_state_def next_alloc_ok_def heap_after_def grant_two_def)
qed

lemmas pull_defs = PcapReaderFunction_def read_loop.simps feof_def read_packet_def fread_def
  load_packet_header_def slice_def load32_def read_payload_def grow_buffer_def
  duckdb_malloc_def Let_def timestamp_ns_of_def ex_refused_state_def ex_refused_file_def
  ex_header_def

text \<open>
  C5, as stated, fails. A reader opened on a file with snapshot length 4 whose first
  record announces 16 captured bytes, under an allocator that grants the two requests
  of PcapReaderInit and refuses the next, returns an empty batch on the first pull
  although the stream still holds unread bytes and is not at end of file; the same
  pull under an allocator that grants everything returns both records of the file,
  and a further pull after the empty batch still returns rows.
\<close>

theorem empty_batch_counterexample:
  "fst (PcapReaderInit (ex_world ex_refused_file) grant_two ex_bind)
     = Inr (ex_refused_state (drop 24 ex_refused_file)) \<and>
   PcapReaderFunction LittleEndian 2048
       (Some (ex_refused_state (drop 24 ex_refused_file))) grant_none
     = ([], Some (ex_refused_state (drop 40 ex_refused_file)), grant_none) \<and>
   length (unread (stream (ex_refused_state (drop 40 ex_refused_file)))) = 33 \<and>
   \<not> eof_ind (stream (ex_refused_state (drop 40 ex_refused_file))) \<and>
   fst (PcapReaderFunction LittleEndian 2048
          (Some (ex_refused_state (drop 40 ex_refused_file))) grant_none)
     = [\<lparr>timestamp_ns = 7000000000, original_len = 0, capture_len = 0, data = []\<rparr>,
        \<lparr>timestamp_ns = 2000000000, original_len = 1, capture_len = 1, data = [0x7f]\<rparr>] \<and>
   fst (PcapReaderFunction LittleEndian 2048
          (Some (ex_refused_state (drop 24 ex_refused_file))) grant_all)
     = [\<lparr>timestamp_ns = 1000000000, original_len = 16, capture_len = 16,
          data = [7, 0, 0, 0, 0, 0, 0, 0, 0, 0, 0, 0, 0, 0, 0, 0]\<rparr>,
        \<lparr>timestamp_ns = 2000000000, original_len = 1, capture_len = 1, data = [0x7f]\<rparr>]"
proof -
  have 1: "PcapReaderFunction LittleEndian 2048
       (Some (ex_refused_state (drop 24 ex_refused_file))) grant_none
     = ([], Some (ex_refused_state (drop 40 ex_refused_file)), grant_none)"
    by (simp add: pull_defs grant_none_def)
  have 2: "length (unread (stream (ex_refused_state (drop 40 ex_refused_file)))) = 33"
    "\<not> eof_ind (stream (ex_refused_state (drop 40 ex_refused_file)))"
    by (simp_all add: ex_refused_state_def ex_refused_file_def ex_header_def)
  have 3: "fst (PcapReaderFunction LittleEndian 2048
          (Some (ex_refused_state (drop 40 ex_refused_file))) grant_none)
     = [\<lparr>timestamp_ns = 7000000000, original_len = 0, capture_len = 0, data = []\<rparr>,
        \<lparr>timestamp_ns = 2000000000, original_len = 1, capture_len = 1, data = [0x7f]\<rparr>]"
    by (simp add: pull_defs grant_none_def)
  have 4: "fst (PcapReaderFunction LittleEndian 2048
          (Some (ex_refused_state (drop 24 ex_refused_file))) grant_all)
     = [\<lparr>timestamp_ns = 1000000000, original_len = 16, capture_len = 16,
          data = [7, 0, 0, 0, 0, 0, 0, 0, 0, 0, 0, 0, 0, 0, 0, 0]\<rparr>,
        \<lparr>timestamp_ns = 2000000000, original_len = 1, capture_len = 1, data = [0x7f]\<rparr>]"
    by (simp add: pull_defs grant_all_def)
  from ex_refused_init 1 2 3 4 show ?thesis
    by simp
qed

text \<open>
  C5, amended. With \<open>max_rows > 0\<close> and a stream whose end-of-file indicator is set
  only when nothing is left to read, a pull returns an empty batch only when the
  stream is exhausted afterwards (no unread byte is left), or when the first record of
  the pull has a complete header, needs a larger buffer, and the allocation is
  refused. A refused allocation ends the loop of the pull at once: the batch is the
  rows accumulated so far, the 16 header bytes are consumed and nothing else changes.
\<close>

theorem empty_batch_amended:
  assumes "0 < max_rows"
    and "eof_ind (stream st) \<longrightarrow> unread (stream st) = []"
    and "PcapReaderFunction e max_rows (Some st) h = ([], sto', h')"
  shows "(\<exists>st'. sto' = Some st' \<and>
            (unread (stream st') = [] \<or>
             16 \<le> length (unread (stream st)) \<and>
             buffer_size st < unat (caplen (next_header e st)) \<and>
             \<not> next_alloc_ok h (unat (caplen (next_header e st))))) \<and>
         (\<forall>s g out.
            length out < max_rows \<and> \<not> feof (stream s) \<and> 16 \<le> length (unread (stream s)) \<and>
            buffer_size s < unat (caplen (next_header e s)) \<and>
            \<not> next_alloc_ok g (unat (caplen (next_header e s))) \<longrightarrow>
            read_loop e max_rows s g out =
              (out, s\<lparr>stream := (stream s)\<lparr>unread := drop 16 (unread (stream s))\<rparr>\<rparr>,
               heap_after g))"
proof -
  obtain st' where sto': "sto' = Some st'"
    and rl: "read_loop e max_rows st h [] = ([], st', h')"
    using assms(3) by (auto simp: PcapReaderFunction_Some split: prod.splits)
  have first: "unread (stream st') = [] \<or>
             16 \<le> length (unread (stream st)) \<and>
             buffer_size st < unat (caplen (next_header e st)) \<and>
             \<not> next_alloc_ok h (unat (caplen (next_header e st)))"
  proof (cases "feof (stream st)")
    case True
    with rl have "st' = st"
      by (simp add: read_loop_stop)
    with True assms(2) show ?thesis
      by (simp add: feof_def)
  next
    case False
    obtain ro st1 h1 where rp: "read_packet e st h = (ro, st1, h1)"
      by (cases "read_packet e st h") auto
    have len: "length ([] :: row list) < max_rows"
      using assms(1) by simp
    show ?thesis
    proof (cases ro)
      case None
      with rp rl False len have "st' = st1"
        by (simp add: read_loop_break)
      with read_packet_None_cases [OF rp [unfolded None]] show ?thesis
        by auto
    next
      case (Some r)
      with rp rl False len have "read_loop e max_rows st1 h1 ([] @ [r]) = ([], st', h')"
        by (simp add: read_loop_step)
      from read_loop_nonempty [OF this] show ?thesis
        by simp
    qed
  qed
  have second: "read_loop e max_rows s g out =
              (out, s\<lparr>stream := (stream s)\<lparr>unread := drop 16 (unread (stream s))\<rparr>\<rparr>,
               heap_after g)"
    if "length out < max_rows" "\<not> feof (stream s)" "16 \<le> length (unread (stream s))"
      "buffer_size s < unat (caplen (next_header e s))"
      "\<not> next_alloc_ok g (unat (caplen (next_header e s)))" for s g out
  proof -
    have "read_packet e s g =
        (None, s\<lparr>stream := (stream s)\<lparr>unread := drop 16 (unread (stream s))\<rparr>\<rparr>, heap_after g)"
      using that(3-5) by (simp add: read_packet_header read_payload_alloc_fails)
    from read_loop_break [OF that(1,2) this] show ?thesis .
  qed
  from sto' first second show ?thesis
    by blast
qed

theorem empty_batch_amended_witness:
  "PcapReaderFunction LittleEndian 2048 (Some (ex_refused_state [1, 0, 0, 0, 0])) grant_all
     = ([], Some ((ex_refused_state []) \<lparr>stream := \<lparr>unread = [], eof_ind = True\<rparr>\<rparr>), grant_all) \<and>
   (\<exists>st'. Some ((ex_refused_state []) \<lparr>stream := \<lparr>unread = [], eof_ind = True\<rparr>\<rparr>) = Some st' \<and>
      (unread (stream st') = [] \<or>
       16 \<le> length (unread (stream (ex_refused_state [1, 0, 0, 0, 0]))) \<and>
       buffer_size (ex_refused_state [1, 0, 0, 0, 0])
         < unat (caplen (next_header LittleEndian (ex_refused_state [1, 0, 0, 0, 0]))) \<and>
       \<not> next_alloc_ok grant_all
           (unat (caplen (next_header LittleEndian (ex_refused_state [1, 0, 0, 0, 0]))))))"
proof -
  let ?st = "ex_refused_state [1, 0, 0, 0, 0]"
  let ?st' = "(ex_refused_state []) \<lparr>stream := \<lparr>unread = [], eof_ind = True\<rparr>\<rparr>"
  have 1: "(0 :: nat) < 2048"
    by simp
  have 2: "eof_ind (stream ?st) \<longrightarrow> unread (stream ?st) = []"
    by (simp add: ex_refused_state_def)
  have 3: "PcapReaderFunction LittleEndian 2048 (Some ?st) grant_all = ([], Some ?st', grant_all)"
    by (simp add: pull_defs)
  from empty_batch_amended [OF 1 2 3] 3 show ?thesis
    by blast
qed

section \<open>Well-formed streams\<close>

lemma grants_positive_next: "grants_positive h \<Longrightarrow> 0 < n \<Longrightarrow> next_alloc_ok h n"
  by (simp add: grants_positive_def next_alloc_ok_def)

lemma grants_positive_after: "grants_positive h \<Longrightarrow> grants_positive (heap_after h)"
  by (simp add: grants_positive_def heap_after_def)

lemma grants_positive_grow:
  "grants_positive h \<Longrightarrow> buffer_size st < want \<longrightarrow> next_alloc_ok h want"
  by (auto intro: grants_positive_next)

lemma next_header_eq: "next_header e st = header_of e (needs_swap st) (unread (stream st))"
  by (simp add: next_header_def header_of_def)

lemma length_store32 [simp]: "length (store32 e v) = 4"
  by (cases e) (simp_all add: store32_def)

lemma load32_store32: "load32 e (store32 e v) = v"
  by (cases e) (simp_all add: load32_def store32_def le_word_bytes del: le_word.simps)

lemma length_file_field [simp]: "length (file_field e swapped v) = 4"
  by (simp add: file_field_def)

lemma load32_file_field:
  "load32 e (file_field e swapped v) = (if swapped then swap32 v else v)"
  by (simp add: file_field_def load32_rev load32_store32)

lemma header_of_encode_record:
  "header_of e swapped (encode_record e swapped rec @ rest) = fst rec"
  by (cases "fst rec")
    (simp add: header_of_def encode_record_def load_packet_header_def slice_def
      load32_file_field swap_packet_header_def swap32_swap32)

lemma ucast_le_word4:
  "(ucast (le_word [a, b, c, d] :: uint32) :: byte) = a"
  "(ucast (drop_bit 8 (le_word [a, b, c, d] :: uint32)) :: byte) = b"
  "(ucast (drop_bit 16 (le_word [a, b, c, d] :: uint32)) :: byte) = c"
  "(ucast (drop_bit 24 (le_word [a, b, c, d] :: uint32)) :: byte) = d"
  unfolding le_word4
  by (rule bit_eqI; auto simp: bit_simps bit_byte_high)+

lemma store32_load32:
  assumes "length bs = 4"
  shows "store32 e (load32 e bs) = bs"
proof -
  from assms obtain a b c d where bs: "bs = [a, b, c, d]"
    by (rule length4E)
  show ?thesis
    by (cases e) (simp_all add: bs store32_def load32_def ucast_le_word4 del: le_word.simps)
qed


lemma file_field_load32:
  assumes "length bs = 4"
  shows "file_field e swapped (if swapped then swap32 (load32 e bs) else load32 e bs) = bs"
proof (cases swapped)
  case False
  then show ?thesis
    by (simp add: file_field_def store32_load32 [OF assms])
next
  case True
  have "store32 e (swap32 (load32 e bs)) = rev bs"
    using store32_load32 [of "rev bs" e] assms by (simp add: load32_rev)
  with True show ?thesis
    by (simp add: file_field_def)
qed

text \<open>
  Every 16 bytes are the header of exactly the record the reader decodes from them:
  the encoding reaches every stream.
\<close>

lemma encode_record_header_of:
  assumes "16 \<le> length r"
  shows "encode_record e swapped (header_of e swapped r, drop 16 r) = r"
proof -
  have l: "length (slice 0 4 (take 16 r)) = 4" "length (slice 4 4 (take 16 r)) = 4"
    "length (slice 8 4 (take 16 r)) = 4" "length (slice 12 4 (take 16 r)) = 4"
    using assms by (simp_all add: slice_def)
  have split: "slice 0 4 (take 16 r) @ slice 4 4 (take 16 r) @ slice 8 4 (take 16 r) @
      slice 12 4 (take 16 r) = take 16 r"
  proof -
    define t where "t = take 16 r"
    have 1: "take 16 t = take 12 t @ take 4 (drop 12 t)"
      using take_add [of 12 4 t] by simp
    have 2: "take 12 t = take 8 t @ take 4 (drop 8 t)"
      using take_add [of 8 4 t] by simp
    have 3: "take 8 t = take 4 t @ take 4 (drop 4 t)"
      using take_add [of 4 4 t] by simp
    have "take 16 t = t"
      by (simp add: t_def)
    then have "take 4 t @ take 4 (drop 4 t) @ take 4 (drop 8 t) @ take 4 (drop 12 t) = t"
      using 1 2 3 by simp
    then show ?thesis
      by (simp add: slice_def t_def)
  qed
  have "encode_record e swapped (header_of e swapped r, drop 16 r) =
      (slice 0 4 (take 16 r) @ slice 4 4 (take 16 r) @ slice 8 4 (take 16 r) @
       slice 12 4 (take 16 r)) @ drop 16 r"
    using file_field_load32 [OF l(1), of e swapped] file_field_load32 [OF l(2), of e swapped]
      file_field_load32 [OF l(3), of e swapped] file_field_load32 [OF l(4), of e swapped]
    by (cases swapped)
      (simp_all add: encode_record_def header_of_def load_packet_header_def
        swap_packet_header_def)
  then show ?thesis
    unfolding split by simp
qed

lemma length_encode_record [simp]:
  "length (encode_record e swapped rec) = 16 + length (snd rec)"
  by (simp add: encode_record_def)

lemma drop_encode_record:
  "drop 16 (encode_record e swapped rec @ rest) = snd rec @ rest"
  by (simp add: encode_record_def)

text \<open>The loop body touches only the stream, the buffer and the capacity.\<close>

lemma read_payload_frame:
  assumes "read_payload ph st h = (ro, st', h')"
  shows "needs_swap st' = needs_swap st \<and> is_nanosecond st' = is_nanosecond st \<and>
         is_stdin st' = is_stdin st \<and> filename st' = filename st \<and>
         file_header st' = file_header st \<and> (h' = h \<or> h' = heap_after h)"
  using assms
  by (auto simp: read_payload_def grow_buffer_def duckdb_malloc_eq Let_def
      split: if_splits prod.splits)

lemma read_packet_frame:
  assumes "read_packet e st h = (ro, st', h')"
  shows "needs_swap st' = needs_swap st \<and> is_nanosecond st' = is_nanosecond st \<and>
         is_stdin st' = is_stdin st \<and> filename st' = filename st \<and>
         file_header st' = file_header st \<and> (h' = h \<or> h' = heap_after h)"
proof (cases "16 \<le> length (unread (stream st))")
  case True
  let ?st1 = "st\<lparr>stream := (stream st)\<lparr>unread := drop 16 (unread (stream st))\<rparr>\<rparr>"
  from assms True have "read_payload (next_header e st) ?st1 h = (ro, st', h')"
    by (simp add: read_packet_header)
  from read_payload_frame [OF this] show ?thesis
    by simp
next
  case False
  with assms show ?thesis
    by (auto simp: read_packet_short_header)
qed

text \<open>One complete record at the head of the stream.\<close>

lemma read_packet_record:
  assumes "unread (stream st) = encode_record e (needs_swap st) rec @ rest"
    and "complete_record rec"
    and "grants_positive h"
  shows "\<exists>st' h'. read_packet e st h = (Some (row_of (is_nanosecond st) rec), st', h') \<and>
           stream st' = (stream st)\<lparr>unread := rest\<rparr> \<and>
           needs_swap st' = needs_swap st \<and> is_nanosecond st' = is_nanosecond st \<and>
           grants_positive h'"
proof -
  have nh: "next_header e st = fst rec"
    by (simp add: next_header_eq assms(1) header_of_encode_record)
  have want: "unat (caplen (next_header e st)) = length (snd rec)"
    using assms(2) by (simp add: nh complete_record_def)
  have 1: "16 + unat (caplen (next_header e st)) \<le> length (unread (stream st))"
    by (simp add: want assms(1))
  note 2 = grants_positive_grow [OF assms(3), of st "unat (caplen (next_header e st))"]
  have d: "drop (16 + length (snd rec)) (encode_record e (needs_swap st) rec @ rest) = rest"
    by simp
  have t: "take (length (snd rec)) (drop 16 (encode_record e (needs_swap st) rec @ rest)) = snd rec"
    by (simp only: drop_encode_record) simp
  from read_packet_complete [OF 1 2] obtain st' where
    rp: "read_packet e st h =
       (Some \<lparr>timestamp_ns = timestamp_ns_of (is_nanosecond st) (next_header e st),
              original_len = len (next_header e st),
              capture_len = caplen (next_header e st),
              data = take (unat (caplen (next_header e st))) (drop 16 (unread (stream st)))\<rparr>,
        st',
        if buffer_size st < unat (caplen (next_header e st)) then heap_after h else h)"
    and st': "stream st' = (stream st)\<lparr>unread :=
              drop (16 + unat (caplen (next_header e st))) (unread (stream st))\<rparr>"
      "needs_swap st' = needs_swap st" "is_nanosecond st' = is_nanosecond st"
    by blast
  have row: "\<lparr>timestamp_ns = timestamp_ns_of (is_nanosecond st) (next_header e st),
              original_len = len (next_header e st),
              capture_len = caplen (next_header e st),
              data = take (unat (caplen (next_header e st))) (drop 16 (unread (stream st)))\<rparr>
            = row_of (is_nanosecond st) rec"
  proof -
    have "take (unat (caplen (next_header e st))) (drop 16 (unread (stream st))) = snd rec"
      unfolding want assms(1) by (rule t)
    then show ?thesis
      by (simp add: nh row_of_def)
  qed
  have "stream st' = (stream st)\<lparr>unread := rest\<rparr>"
    unfolding st'(1) want by (simp add: assms(1) d)
  moreover have "grants_positive
      (if buffer_size st < unat (caplen (next_header e st)) then heap_after h else h)"
    using assms(3) by (simp add: grants_positive_after)
  ultimately show ?thesis
    using rp st'(2,3) unfolding row by blast
qed

text \<open>The cut-off end of the stream.\<close>

lemma read_packet_truncated:
  assumes "truncated_tail e (needs_swap st) (unread (stream st))"
    and "grants_positive h"
  shows "\<exists>st' h'. read_packet e st h = (None, st', h') \<and>
           unread (stream st') = [] \<and> eof_ind (stream st')"
proof (cases "16 \<le> length (unread (stream st))")
  case False
  then show ?thesis
    by (simp add: read_packet_short_header)
next
  case True
  let ?st1 = "st\<lparr>stream := (stream st)\<lparr>unread := drop 16 (unread (stream st))\<rparr>\<rparr>"
  let ?ph = "next_header e st"
  from assms(1) True have "length (unread (stream st)) < 16 + unat (caplen ?ph)"
    by (simp add: truncated_tail_def next_header_eq)
  with True have short: "length (unread (stream ?st1)) < unat (caplen ?ph)"
    by simp
  note ok = grants_positive_grow [OF assms(2), of ?st1 "unat (caplen ?ph)"]
  from read_payload_short [OF short ok] show ?thesis
    by (simp add: read_packet_header [OF True])
qed

lemma encode_records_Nil [simp]: "encode_records e swapped [] = []"
  by (simp add: encode_records_def)

lemma encode_records_Cons [simp]:
  "encode_records e swapped (rec # recs) = encode_record e swapped rec @ encode_records e swapped recs"
  by (simp add: encode_records_def)

text \<open>One batch over a stream of complete records followed by a cut-off end.\<close>

lemma read_loop_records:
  assumes "grants_positive h"
    and "\<forall>rec \<in> set recs. complete_record rec"
    and "truncated_tail e (needs_swap st) tail"
    and "unread (stream st) = encode_records e (needs_swap st) recs @ tail"
    and "\<not> eof_ind (stream st)"
  shows "\<exists>st' h'.
           read_loop e m st h out =
             (out @ map (row_of (is_nanosecond st)) (take (m - length out) recs), st', h') \<and>
           needs_swap st' = needs_swap st \<and> is_nanosecond st' = is_nanosecond st \<and>
           grants_positive h' \<and>
           (if length recs < m - length out
            then unread (stream st') = [] \<and> eof_ind (stream st')
            else unread (stream st') =
                   encode_records e (needs_swap st) (drop (m - length out) recs) @ tail \<and>
                 \<not> eof_ind (stream st'))"
  using assms
proof (induction recs arbitrary: st h out)
  case Nil
  show ?case
  proof (cases "length out < m")
    case True
    from Nil.prems(3,4) have "truncated_tail e (needs_swap st) (unread (stream st))"
      by simp
    from read_packet_truncated [OF this Nil.prems(1)] obtain st' h' where
      rp: "read_packet e st h = (None, st', h')"
      and ex: "unread (stream st') = []" "eof_ind (stream st')"
      by blast
    have ns: "needs_swap st' = needs_swap st \<and> is_nanosecond st' = is_nanosecond st \<and>
        grants_positive h'"
      using read_packet_frame [OF rp] Nil.prems(1) by (auto intro: grants_positive_after)
    from True Nil.prems(5) have "read_loop e m st h out = (out, st', h')"
      by (intro read_loop_break [OF _ _ rp]) (simp_all add: feof_def)
    with ex ns True show ?thesis
      by simp
  next
    case False
    then have "read_loop e m st h out = (out, st, h)"
      by (simp add: read_loop_stop)
    with False Nil.prems show ?thesis
      by simp
  qed
next
  case (Cons rec recs)
  show ?case
  proof (cases "length out < m")
    case False
    then have "read_loop e m st h out = (out, st, h)"
      by (simp add: read_loop_stop)
    with False Cons.prems show ?thesis
      by simp
  next
    case True
    have u: "unread (stream st) =
        encode_record e (needs_swap st) rec @ (encode_records e (needs_swap st) recs @ tail)"
      using Cons.prems(4) by simp
    have c: "complete_record rec" "\<forall>rec \<in> set recs. complete_record rec"
      using Cons.prems(2) by simp_all
    from read_packet_record [OF u c(1) Cons.prems(1)] obtain st1 h1 where
      rp: "read_packet e st h = (Some (row_of (is_nanosecond st) rec), st1, h1)"
      and st1: "stream st1 = (stream st)\<lparr>unread := encode_records e (needs_swap st) recs @ tail\<rparr>"
        "needs_swap st1 = needs_swap st" "is_nanosecond st1 = is_nanosecond st"
      and h1: "grants_positive h1"
      by blast
    have step: "read_loop e m st h out =
        read_loop e m st1 h1 (out @ [row_of (is_nanosecond st) rec])"
      using True Cons.prems(5) by (intro read_loop_step [OF _ _ rp]) (simp_all add: feof_def)
    have tt: "truncated_tail e (needs_swap st1) tail"
      using Cons.prems(3) by (simp add: st1(2))
    have u1: "unread (stream st1) = encode_records e (needs_swap st1) recs @ tail"
      by (simp add: st1)
    have e1: "\<not> eof_ind (stream st1)"
      using Cons.prems(5) by (simp add: st1(1))
    from Cons.IH [OF h1 c(2) tt u1 e1, of "out @ [row_of (is_nanosecond st) rec]"]
    obtain st' h' where
      rl: "read_loop e m st1 h1 (out @ [row_of (is_nanosecond st) rec]) =
             ((out @ [row_of (is_nanosecond st) rec]) @
                map (row_of (is_nanosecond st1))
                  (take (m - length (out @ [row_of (is_nanosecond st) rec])) recs), st', h')"
      and post: "needs_swap st' = needs_swap st1" "is_nanosecond st' = is_nanosecond st1"
        "grants_positive h'"
        "if length recs < m - length (out @ [row_of (is_nanosecond st) rec])
         then unread (stream st') = [] \<and> eof_ind (stream st')
         else unread (stream st') =
                encode_records e (needs_swap st1)
                  (drop (m - length (out @ [row_of (is_nanosecond st) rec])) recs) @ tail \<and>
              \<not> eof_ind (stream st')"
      by blast
    obtain k where k: "m - length out = Suc k"
      using True by (cases "m - length out") auto
    then have k': "m - length (out @ [row_of (is_nanosecond st) rec]) = k"
      by simp
    show ?thesis
      using rl post unfolding step k k' by (simp add: st1)
  qed
qed

lemma pull_all_at_eof:
  assumes "eof_ind (stream st)"
  shows "pull_all e m (Some st) h = ([], Some st, h)"
proof -
  have "read_loop e m st h [] = ([], st, h)"
    using assms by (simp add: read_loop_stop feof_def)
  then show ?thesis
    by (simp add: pull_all.simps [of e m "Some st" h] PcapReaderFunction_Some)
qed

lemma pull_all_records:
  assumes "0 < m"
    and "grants_positive h"
    and "\<forall>rec \<in> set recs. complete_record rec"
    and "truncated_tail e (needs_swap st) tail"
    and "unread (stream st) = encode_records e (needs_swap st) recs @ tail"
    and "\<not> eof_ind (stream st)"
  shows "\<exists>st' h'. pull_all e m (Some st) h =
           (map (row_of (is_nanosecond st)) recs, Some st', h') \<and>
           unread (stream st') = [] \<and> eof_ind (stream st')"
  using assms(2-)
proof (induction "length recs" arbitrary: recs st h rule: less_induct)
  case less
  from read_loop_records [OF less.prems(1-5), of m "[]"] obtain st1 h1 where
    rl: "read_loop e m st h [] = (map (row_of (is_nanosecond st)) (take m recs), st1, h1)"
    and st1: "needs_swap st1 = needs_swap st" "is_nanosecond st1 = is_nanosecond st"
      "grants_positive h1"
    and post: "if length recs < m
               then unread (stream st1) = [] \<and> eof_ind (stream st1)
               else unread (stream st1) =
                      encode_records e (needs_swap st) (drop m recs) @ tail \<and>
                    \<not> eof_ind (stream st1)"
    by auto
  let ?batch = "map (row_of (is_nanosecond st)) (take m recs)"
  have pf: "PcapReaderFunction e m (Some st) h = (?batch, Some st1, h1)"
    by (simp add: PcapReaderFunction_Some rl)
  show ?case
  proof (cases "recs = []")
    case True
    with pf have "pull_all e m (Some st) h = ([], Some st1, h1)"
      by (simp add: pull_all.simps [of e m "Some st" h])
    with True post assms(1) show ?thesis
      by simp
  next
    case False
    with assms(1) have ne: "?batch \<noteq> []"
      by (cases recs) (auto simp: take_Cons')
    have unfold: "pull_all e m (Some st) h =
        (case pull_all e m (Some st1) h1 of (rest, sto, h') \<Rightarrow> (?batch @ rest, sto, h'))"
      using pf ne by (simp add: pull_all.simps [of e m "Some st" h])
    show ?thesis
    proof (cases "length recs < m")
      case True
      with post have "eof_ind (stream st1)" "unread (stream st1) = []"
        by simp_all
      with True show ?thesis
        by (simp add: unfold pull_all_at_eof)
    next
      case False
      with post have u: "unread (stream st1) =
          encode_records e (needs_swap st1) (drop m recs) @ tail"
        and e1: "\<not> eof_ind (stream st1)"
        by (simp_all add: st1(1))
      have shorter: "length (drop m recs) < length recs"
        using assms(1) \<open>recs \<noteq> []\<close> by simp
      have c: "\<forall>rec \<in> set (drop m recs). complete_record rec"
        using less.prems(2) by (auto dest: in_set_dropD)
      have tt: "truncated_tail e (needs_swap st1) tail"
        using less.prems(3) by (simp add: st1(1))
      from less.hyps [OF shorter st1(3) c tt u e1] obtain st' h' where
        "pull_all e m (Some st1) h1 =
           (map (row_of (is_nanosecond st1)) (drop m recs), Some st', h')"
        "unread (stream st') = []" "eof_ind (stream st')"
        by blast
      moreover have "?batch @ map (row_of (is_nanosecond st)) (drop m recs)
          = map (row_of (is_nanosecond st)) recs"
        by (simp flip: map_append)
      ultimately show ?thesis
        by (simp add: unfold st1(2))
    qed
  qed
qed

text \<open>
  C2. A stream that consists of complete records followed by a cut-off end (nothing,
  1 to 15 bytes of a record header, or a complete header with fewer payload bytes than
  its captured length) is decoded, batch after batch, to exactly the rows of the
  complete records, in order. The scan ends with an empty batch on an exhausted stream;
  neither PcapReaderFunction nor the scan has an error result, and no row is produced
  for the cut-off record. Every stream of this shape is covered, since any 16 bytes
  followed by a payload are the encoding of the record decoded from them
  (\<open>encode_record_header_of\<close>). Allocations of a positive size are taken to succeed.
\<close>

theorem truncation_tolerance:
  assumes "0 < max_rows"
    and "grants_positive h"
    and "\<not> eof_ind (stream st)"
    and "\<forall>rec \<in> set recs. unat (caplen (fst rec)) = length (snd rec)"
    and "length tail < 16 \<or>
         length tail < 16 + unat (caplen (header_of e (needs_swap st) tail))"
    and "unread (stream st) = encode_records e (needs_swap st) recs @ tail"
  shows "\<exists>st' h'. pull_all e max_rows (Some st) h =
           (map (row_of (is_nanosecond st)) recs, Some st', h') \<and>
           unread (stream st') = [] \<and> eof_ind (stream st') \<and>
           PcapReaderFunction e max_rows (Some st') h' = ([], Some st', h')"
proof -
  have c: "\<forall>rec \<in> set recs. complete_record rec"
    using assms(4) by (simp add: complete_record_def)
  have tt: "truncated_tail e (needs_swap st) tail"
    using assms(5) by (simp add: truncated_tail_def)
  from pull_all_records [OF assms(1,2) c tt assms(6,3)] obtain st' h' where
    pa: "pull_all e max_rows (Some st) h = (map (row_of (is_nanosecond st)) recs, Some st', h')"
    and ex: "unread (stream st') = []" "eof_ind (stream st')"
    by blast
  have "PcapReaderFunction e max_rows (Some st') h' = ([], Some st', h')"
    using ex(2) by (simp add: PcapReaderFunction_Some read_loop_stop feof_def)
  with pa ex show ?thesis
    by blast
qed

lemma ex_recs_bytes:
  "encode_records LittleEndian False ex_recs @ ex_cut_tail =
     [1, 0, 0, 0, 0, 0, 0, 0, 2, 0, 0, 0, 2, 0, 0, 0, 0x11, 0x12,
      2, 0, 0, 0, 0, 0, 0, 0, 0, 0, 0, 0, 60, 0, 0, 0,
      3, 0, 0, 0, 0, 0, 0, 0, 5, 0, 0, 0, 9, 0, 0, 0, 0x31, 0x32, 0x33, 0x34, 0x35,
      4, 0, 0, 0, 0, 0, 0, 0, 8, 0, 0, 0, 8, 0, 0, 0, 1, 2, 3]"
  by (simp add: ex_recs_def ex_cut_tail_def encode_record_def file_field_def store32_def)

theorem truncation_tolerance_witness:
  "\<exists>st' h'.
     pull_all LittleEndian 2
       (Some (ex_state False False 4 (encode_records LittleEndian False ex_recs @ ex_cut_tail)))
       grant_all
     = ([\<lparr>timestamp_ns = 1000000000, original_len = 2, capture_len = 2, data = [0x11, 0x12]\<rparr>,
         \<lparr>timestamp_ns = 2000000000, original_len = 60, capture_len = 0, data = []\<rparr>,
         \<lparr>timestamp_ns = 3000000000, original_len = 9, capture_len = 5,
           data = [0x31, 0x32, 0x33, 0x34, 0x35]\<rparr>], Some st', h') \<and>
     unread (stream st') = [] \<and> eof_ind (stream st')"
proof -
  let ?st = "ex_state False False 4 (encode_records LittleEndian False ex_recs @ ex_cut_tail)"
  have 1: "(0 :: nat) < 2"
    by simp
  have 2: "grants_positive grant_all"
    by (simp add: grants_positive_def grant_all_def)
  have 3: "\<not> eof_ind (stream ?st)"
    by (simp add: ex_state_def)
  have 4: "\<forall>rec \<in> set ex_recs. unat (caplen (fst rec)) = length (snd rec)"
    by (simp add: ex_recs_def)
  have 5: "length ex_cut_tail < 16 \<or>
      length ex_cut_tail < 16 + unat (caplen (header_of LittleEndian (needs_swap ?st) ex_cut_tail))"
    by (simp add: ex_cut_tail_def header_of_def ex_state_def load_packet_header_def slice_def
        load32_def)
  have 6: "unread (stream ?st) = encode_records LittleEndian (needs_swap ?st) ex_recs @ ex_cut_tail"
    by (simp add: ex_state_def)
  have rows: "map (row_of (is_nanosecond ?st)) ex_recs =
      [\<lparr>timestamp_ns = 1000000000, original_len = 2, capture_len = 2, data = [0x11, 0x12]\<rparr>,
       \<lparr>timestamp_ns = 2000000000, original_len = 60, capture_len = 0, data = []\<rparr>,
       \<lparr>timestamp_ns = 3000000000, original_len = 9, capture_len = 5,
         data = [0x31, 0x32, 0x33, 0x34, 0x35]\<rparr>]"
    by (simp add: ex_recs_def row_of_def timestamp_ns_of_def ex_state_def)
  from truncation_tolerance [OF 1 2 3 4 5 6] show ?thesis
    unfolding rows by blast
qed

section \<open>Files in the other byte order\<close>

lemma length_swap_record_header:
  "16 \<le> length bs \<Longrightarrow> length (swap_record_header bs) = 16"
  by (simp add: swap_record_header_def slice_def)

lemma length_swap_file_header:
  "24 \<le> length bs \<Longrightarrow> length (swap_file_header bs) = 24"
  by (simp add: swap_file_header_def slice_def)

lemma swap_records_short: "length bs < 16 \<Longrightarrow> swap_records e bs = bs"
  by (simp add: swap_records.simps [of e bs])

lemma swap_records_long:
  "16 \<le> length bs \<Longrightarrow>
     swap_records e bs =
       swap_record_header (take 16 bs) @
       take (unat (load32 e (slice 8 4 bs))) (drop 16 bs) @
       swap_records e (drop (16 + unat (load32 e (slice 8 4 bs))) bs)"
  by (simp add: swap_records.simps [of e bs])

lemma length_swap_records: "length (swap_records e bs) = length bs"
proof (induction e bs rule: swap_records.induct)
  case (1 e bs)
  show ?case
  proof (cases "length bs < 16")
    case True
    then show ?thesis
      by (simp add: swap_records_short)
  next
    case False
    then have len: "16 \<le> length bs"
      by simp
    from "1.IH" [OF False] len show ?thesis
      by (simp add: swap_records_long [OF len] length_swap_record_header min_def)
  qed
qed

lemma load32_slice_swap_record_header:
  assumes "16 \<le> length bs" and "k \<in> {0, 4, 8, 12}"
  shows "load32 e (slice k 4 (swap_record_header bs)) = swap32 (load32 e (slice k 4 bs))"
proof -
  have "slice k 4 (swap_record_header bs) = rev (slice k 4 bs)"
    using assms by (auto simp: swap_record_header_def slice_def)
  moreover have "length (slice k 4 bs) = 4"
    using assms by (auto simp: slice_def)
  ultimately show ?thesis
    by (simp add: load32_rev)
qed

lemma header_of_swap_records:
  assumes "16 \<le> length bs"
  shows "header_of e True (swap_records e bs) = header_of e False bs"
proof -
  have t: "take 16 (swap_records e bs) = swap_record_header (take 16 bs)"
    using assms by (simp add: swap_records_long length_swap_record_header)
  have l: "16 \<le> length (take 16 bs)"
    using assms by simp
  have s: "\<And>k. k \<in> {0, 4, 8, 12} \<Longrightarrow> slice k 4 (take 16 bs) = slice k 4 bs"
    by (auto simp: slice_def take_drop)
  show ?thesis
    unfolding header_of_def Let_def t
    by (simp add: load_packet_header_def swap_packet_header_def
        load32_slice_swap_record_header [OF l] swap32_swap32 s)
qed

lemma read_payload_heap:
  assumes "read_payload ph st h = (ro, st', h')"
  shows "h' = (if buffer_size st < unat (caplen ph) then heap_after h else h)"
  using assms
  by (auto simp: read_payload_def grow_buffer_def duckdb_malloc_eq Let_def
      split: if_splits prod.splits)

lemma read_packet_heap:
  assumes "read_packet e st h = (ro, st', h')"
  shows "h' = (if 16 \<le> length (unread (stream st)) \<and>
                  buffer_size st < unat (caplen (next_header e st))
               then heap_after h else h)"
proof (cases "16 \<le> length (unread (stream st))")
  case True
  let ?st1 = "st\<lparr>stream := (stream st)\<lparr>unread := drop 16 (unread (stream st))\<rparr>\<rparr>"
  from assms True have "read_payload (next_header e st) ?st1 h = (ro, st', h')"
    by (simp add: read_packet_header)
  from read_payload_heap [OF this] True show ?thesis
    by simp
next
  case False
  with assms show ?thesis
    by (auto simp: read_packet_short_header)
qed

lemma read_packet_in_step:
  assumes "in_step e stn sts" and "grants_positive h"
  shows "\<exists>ro stn' sts' h'.
           read_packet e stn h = (ro, stn', h') \<and> read_packet e sts h = (ro, sts', h') \<and>
           in_step e stn' sts' \<and> grants_positive h'"
proof -
  let ?bs = "unread (stream stn)"
  from assms(1) have R: "\<not> needs_swap stn" "needs_swap sts"
    "is_nanosecond sts = is_nanosecond stn" "buffer_size sts = buffer_size stn"
    "eof_ind (stream sts) = eof_ind (stream stn)"
    "unread (stream sts) = swap_records e ?bs"
    by (simp_all add: in_step_def)
  have len: "length (unread (stream sts)) = length ?bs"
    by (simp add: R(6) length_swap_records)
  obtain ron stn' hn where rn: "read_packet e stn h = (ron, stn', hn)"
    by (cases "read_packet e stn h") auto
  obtain ros sts' hs where rs: "read_packet e sts h = (ros, sts', hs)"
    by (cases "read_packet e sts h") auto
  note fn = read_packet_frame [OF rn] and fs = read_packet_frame [OF rs]
  note bn = read_packet_buffer [OF rn] and bs = read_packet_buffer [OF rs]
  note hn = read_packet_heap [OF rn] and hs = read_packet_heap [OF rs]
  have gp: "grants_positive hn"
    using fn assms(2) by (auto intro: grants_positive_after)
  show ?thesis
  proof (cases "16 \<le> length ?bs")
    case False
    then have "read_packet e stn h =
        (None, stn\<lparr>stream := (stream stn)\<lparr>unread := [], eof_ind := True\<rparr>\<rparr>, h)"
      and "read_packet e sts h =
        (None, sts\<lparr>stream := (stream sts)\<lparr>unread := [], eof_ind := True\<rparr>\<rparr>, h)"
      by (simp_all add: read_packet_short_header len)
    moreover have "in_step e (stn\<lparr>stream := (stream stn)\<lparr>unread := [], eof_ind := True\<rparr>\<rparr>)
        (sts\<lparr>stream := (stream sts)\<lparr>unread := [], eof_ind := True\<rparr>\<rparr>)"
      using R by (simp add: in_step_def swap_records_short)
    ultimately show ?thesis
      using assms(2) by blast
  next
    case True
    have nh: "next_header e sts = next_header e stn"
      using R(1,2) by (simp add: next_header_eq R(6) header_of_swap_records [OF True])
    let ?n = "unat (caplen (next_header e stn))"
    have n: "?n = unat (load32 e (slice 8 4 ?bs))"
      using R(1) by (simp add: next_header_eq header_of_def load_packet_header_def slice_def
          take_drop)
    have heq: "hs = hn"
      using hn hs by (simp add: nh len R(4))
    have beq: "buffer_size sts' = buffer_size stn'"
      using bn bs by (simp add: nh len R(4))
    show ?thesis
    proof (cases "16 + ?n \<le> length ?bs")
      case False
      have "truncated_tail e (needs_swap stn) (unread (stream stn))"
        using False by (simp add: truncated_tail_def next_header_eq [symmetric])
      from read_packet_truncated [OF this assms(2)] rn
      have tn: "ron = None" "unread (stream stn') = []" "eof_ind (stream stn')"
        by auto
      have "truncated_tail e (needs_swap sts) (unread (stream sts))"
        using False by (simp add: truncated_tail_def next_header_eq [symmetric] nh len)
      from read_packet_truncated [OF this assms(2)] rs
      have ts: "ros = None" "unread (stream sts') = []" "eof_ind (stream sts')"
        by auto
      have "in_step e stn' sts'"
        using fn fs R tn ts beq by (simp add: in_step_def swap_records_short)
      with rn rs tn(1) ts(1) heq gp show ?thesis
        by blast
    next
      case complete: True
      have okn: "buffer_size stn < ?n \<longrightarrow> next_alloc_ok h ?n"
        by (rule grants_positive_grow [OF assms(2)])
      have cs: "16 + unat (caplen (next_header e sts)) \<le> length (unread (stream sts))"
        using complete by (simp add: nh len)
      have oks: "buffer_size sts < unat (caplen (next_header e sts)) \<longrightarrow>
          next_alloc_ok h (unat (caplen (next_header e sts)))"
        by (rule grants_positive_grow [OF assms(2)])
      have sw: "swap_records e ?bs =
          swap_record_header (take 16 ?bs) @ take ?n (drop 16 ?bs) @
          swap_records e (drop (16 + ?n) ?bs)"
        using swap_records_long [OF True, of e] by (simp add: n)
      have l16: "length (swap_record_header (take 16 ?bs)) = 16"
        using True by (simp add: length_swap_record_header)
      have ln: "length (take ?n (drop 16 ?bs)) = ?n"
        using complete by simp
      have d16: "drop 16 (swap_records e ?bs) =
          take ?n (drop 16 ?bs) @ swap_records e (drop (16 + ?n) ?bs)"
        by (subst sw) (simp add: l16)
      have dat: "take ?n (drop 16 (swap_records e ?bs)) = take ?n (drop 16 ?bs)"
        unfolding d16 using ln by simp
      have "drop (16 + ?n) (swap_record_header (take 16 ?bs) @ take ?n (drop 16 ?bs) @
              swap_records e (drop (16 + ?n) ?bs)) = swap_records e (drop (16 + ?n) ?bs)"
        using l16 ln by simp
      then have rest: "drop (16 + ?n) (swap_records e ?bs) = swap_records e (drop (16 + ?n) ?bs)"
        by (simp only: sw [symmetric])
      from read_packet_complete [OF complete okn] rn
      have cn: "ron = Some \<lparr>timestamp_ns = timestamp_ns_of (is_nanosecond stn) (next_header e stn),
                  original_len = len (next_header e stn),
                  capture_len = caplen (next_header e stn),
                  data = take ?n (drop 16 ?bs)\<rparr>"
        "stream stn' = (stream stn)\<lparr>unread := drop (16 + ?n) ?bs\<rparr>"
        by auto
      from read_packet_complete [OF cs oks] rs
      have cs': "ros = Some \<lparr>timestamp_ns = timestamp_ns_of (is_nanosecond stn) (next_header e stn),
                  original_len = len (next_header e stn),
                  capture_len = caplen (next_header e stn),
                  data = take ?n (drop 16 (swap_records e ?bs))\<rparr>"
        "stream sts' = (stream sts)\<lparr>unread := drop (16 + ?n) (swap_records e ?bs)\<rparr>"
        by (auto simp: nh R(3,6))
      have "ros = ron"
        by (simp add: cn(1) cs'(1) dat)
      moreover have "in_step e stn' sts'"
        using fn fs R beq by (simp add: in_step_def cn(2) cs'(2) rest)
      ultimately show ?thesis
        using rn rs heq gp by blast
    qed
  qed
qed

lemma read_loop_in_step:
  "in_step e stn sts \<Longrightarrow> grants_positive h \<Longrightarrow>
     \<exists>rows stn' sts' h'.
       read_loop e m stn h out = (rows, stn', h') \<and> read_loop e m sts h out = (rows, sts', h') \<and>
       in_step e stn' sts' \<and> grants_positive h'"
proof (induction e m stn h out arbitrary: sts rule: read_loop.induct)
  case (1 e m stn h out)
  have eof: "feof (stream sts) = feof (stream stn)"
    using "1.prems"(1) by (simp add: in_step_def feof_def)
  show ?case
  proof (cases "length out < m \<and> \<not> feof (stream stn)")
    case False
    then have "read_loop e m stn h out = (out, stn, h)" "read_loop e m sts h out = (out, sts, h)"
      by (auto simp: read_loop_stop eof)
    with "1.prems" show ?thesis
      by blast
  next
    case True
    from read_packet_in_step [OF "1.prems"] obtain ro stn1 sts1 h1 where
      rn: "read_packet e stn h = (ro, stn1, h1)" and rs: "read_packet e sts h = (ro, sts1, h1)"
      and R1: "in_step e stn1 sts1" and g1: "grants_positive h1"
      by blast
    from True have cond: "length out < m" "\<not> feof (stream stn)" "\<not> feof (stream sts)"
      by (simp_all add: eof)
    show ?thesis
    proof (cases ro)
      case None
      from read_loop_break [OF cond(1,2) rn [unfolded None]]
        read_loop_break [OF cond(1,3) rs [unfolded None]] R1 g1
      show ?thesis
        by blast
    next
      case (Some r)
      from "1.IH" [OF True rn [symmetric] Some refl R1 g1]
      obtain rows stn' sts' h' where
        "read_loop e m stn1 h1 (out @ [r]) = (rows, stn', h')"
        "read_loop e m sts1 h1 (out @ [r]) = (rows, sts', h')"
        "in_step e stn' sts'" "grants_positive h'"
        by blast
      with read_loop_step [OF cond(1,2) rn [unfolded Some]]
        read_loop_step [OF cond(1,3) rs [unfolded Some]]
      show ?thesis
        by simp
    qed
  qed
qed

lemma pull_all_in_step:
  "sto = Some stn \<Longrightarrow> in_step e stn sts \<Longrightarrow> grants_positive h \<Longrightarrow>
     fst (pull_all e m (Some sts) h) = fst (pull_all e m sto h)"
proof (induction e m sto h arbitrary: stn sts rule: pull_all.induct)
  case (1 e m sto h)
  from read_loop_in_step [OF "1.prems"(2,3), of m "[]"] obtain rows stn' sts' h' where
    rn: "read_loop e m stn h [] = (rows, stn', h')"
    and rs: "read_loop e m sts h [] = (rows, sts', h')"
    and R: "in_step e stn' sts'" and g: "grants_positive h'"
    by blast
  have pn: "PcapReaderFunction e m sto h = (rows, Some stn', h')"
    by (simp add: "1.prems"(1) PcapReaderFunction_Some rn)
  have ps: "PcapReaderFunction e m (Some sts) h = (rows, Some sts', h')"
    by (simp add: PcapReaderFunction_Some rs)
  show ?case
  proof (cases "rows = []")
    case True
    with pn ps show ?thesis
      by (simp add: pull_all.simps [of e m sto h] pull_all.simps [of e m "Some sts" h])
  next
    case False
    from "1.IH" [OF pn [symmetric] refl False refl R g]
    have "fst (pull_all e m (Some sts') h') = fst (pull_all e m (Some stn') h')" .
    with pn ps False show ?thesis
      by (auto simp: pull_all.simps [of e m sto h] pull_all.simps [of e m "Some sts" h]
          split: prod.splits)
  qed
qed

lemma load_file_header_swapped:
  assumes "24 \<le> length bs"
  shows "magic_number (load_file_header e (swap_file_header bs))
           = swap32 (magic_number (load_file_header e bs))"
    and "snaplen (load_file_header e (swap_file_header bs))
           = swap32 (snaplen (load_file_header e bs))"
proof -
  have m: "slice 0 4 (swap_file_header bs) = rev (slice 0 4 bs)"
    using assms by (simp add: swap_file_header_def slice_def)
  have s: "slice 16 4 (swap_file_header bs) = rev (slice 16 4 bs)"
    using assms by (simp add: swap_file_header_def slice_def)
  have l: "length (slice 0 4 bs) = 4" "length (slice 16 4 bs) = 4"
    using assms by (simp_all add: slice_def)
  show "magic_number (load_file_header e (swap_file_header bs))
           = swap32 (magic_number (load_file_header e bs))"
    by (simp add: load_file_header_def m load32_rev l)
  show "snaplen (load_file_header e (swap_file_header bs))
           = swap32 (snaplen (load_file_header e bs))"
    by (simp add: load_file_header_def s load32_rev l)
qed

lemma swap32_magic:
  "swap32 0xa1b2c3d4 = 0xd4c3b2a1" "swap32 0xa1b23c4d = 0x4d3cb2a1"
  by (simp_all add: swap32_def)

lemma negotiate_swapped:
  assumes "24 \<le> length bs"
    and "magic_number (load_file_header e bs) \<in> {0xa1b2c3d4, 0xa1b23c4d}"
  shows "\<exists>nano fhn fhs.
           negotiate (load_file_header e bs) = Some (False, nano, fhn) \<and>
           negotiate (load_file_header e (swap_file_header bs)) = Some (True, nano, fhs) \<and>
           snaplen fhs = snaplen fhn"
  using assms(2)
  by (auto simp: negotiate_cases load_file_header_swapped [OF assms(1)] swap32_magic
      swap32_swap32)

lemma PcapReaderInit_in_step:
  assumes "files w p = Some bs"
    and "24 \<le> length bs"
    and "magic_number (load_file_header (host_order w) (take 24 bs)) \<in> {0xa1b2c3d4, 0xa1b23c4d}"
    and "b = \<lparr>bind_filename = p, bind_is_stdin = False\<rparr>"
    and "w' = w\<lparr>files := (files w)(p \<mapsto> byte_swap_header_and_records (host_order w) bs)\<rparr>"
  shows "(\<exists>err h'. PcapReaderInit w h b = (Inl err, h') \<and> PcapReaderInit w' h b = (Inl err, h')) \<or>
         (\<exists>stn sts. PcapReaderInit w h b = (Inr stn, heap_after (heap_after h)) \<and>
                    PcapReaderInit w' h b = (Inr sts, heap_after (heap_after h)) \<and>
                    in_step (host_order w) stn sts)"
proof (cases "next_alloc_ok h sizeof_pcap_reader_state_t")
  case False
  then show ?thesis
    by (simp add: PcapReaderInit_def duckdb_malloc_eq)
next
  case True
  let ?e = "host_order w"
  let ?sw = "byte_swap_header_and_records ?e bs"
  have sw: "?sw = swap_file_header (take 24 bs) @ swap_records ?e (drop 24 bs)"
    using assms(2) by (simp add: byte_swap_header_and_records_def)
  have l24: "length (swap_file_header (take 24 bs)) = 24"
    using assms(2) by (simp add: length_swap_file_header)
  have on: "open_input w b = Some \<lparr>unread = bs, eof_ind = False\<rparr>"
    by (simp add: open_input_def fopen_rb_def assms(1,4))
  have os: "open_input w' b = Some \<lparr>unread = ?sw, eof_ind = False\<rparr>"
    by (simp add: open_input_def fopen_rb_def assms(4,5))
  have ln: "24 \<le> length (unread \<lparr>unread = bs, eof_ind = False\<rparr>)"
    using assms(2) by simp
  have ls: "24 \<le> length (unread \<lparr>unread = ?sw, eof_ind = False\<rparr>)"
    using assms(2) by (simp add: sw l24)
  have e': "host_order w' = ?e"
    by (simp add: assms(5))
  have t24: "take 24 ?sw = swap_file_header (take 24 bs)"
    by (simp add: sw l24)
  have d24: "drop 24 ?sw = swap_records ?e (drop 24 bs)"
    by (simp add: sw l24)
  have l: "24 \<le> length (take 24 bs)"
    using assms(2) by simp
  from negotiate_swapped [OF l assms(3)] obtain nano fhn fhs where
    neg: "negotiate (load_file_header ?e (take 24 bs)) = Some (False, nano, fhn)"
      "negotiate (load_file_header ?e (swap_file_header (take 24 bs))) = Some (True, nano, fhs)"
      "snaplen fhs = snaplen fhn"
    by blast
  show ?thesis
    unfolding PcapReaderInit_header [OF on ln True] PcapReaderInit_header [OF os ls True]
    by (simp add: e' t24 d24 neg in_step_def)
qed

text \<open>
  C4. A capture file in host order (magic 0xa1b2c3d4 or 0xa1b23c4d as the host reads
  it) and its other-order form, in which the magic number and every multi-byte field of
  the capture header and of every record header are byte-reversed, are read to the
  same result: the same rows in the same order, or the same error. This holds for every
  such byte stream, cut off or not, with allocations of a positive size succeeding.
\<close>

theorem swapped_file_decodes_identically:
  assumes "grants_positive h"
    and "files w (c_str fname) = Some bs"
    and "\<not> is_stdin_path fname"
    and "magic_number (load_file_header (host_order w) (take 24 bs)) \<in> {0xa1b2c3d4, 0xa1b23c4d}"
  shows "read_pcap
           (w\<lparr>files := (files w)(c_str fname \<mapsto> byte_swap_header_and_records (host_order w) bs)\<rparr>)
           h max_rows (Some fname)
         = read_pcap w h max_rows (Some fname)"
proof (cases "length bs < 24")
  case True
  then have "(files w)(c_str fname \<mapsto> byte_swap_header_and_records (host_order w) bs) = files w"
    using assms(2) by (simp add: byte_swap_header_and_records_def map_upd_triv)
  then show ?thesis
    by simp
next
  case False
  then have len: "24 \<le> length bs"
    by simp
  let ?w' = "w\<lparr>files := (files w)(c_str fname \<mapsto> byte_swap_header_and_records (host_order w) bs)\<rparr>"
  let ?b = "\<lparr>bind_filename = c_str fname, bind_is_stdin = False\<rparr>"
  have e': "host_order ?w' = host_order w"
    by simp
  show ?thesis
  proof (cases "PcapReaderBind h (Some fname)")
    case (Pair res h1)
    show ?thesis
    proof (cases res)
      case (Inl err)
      with Pair show ?thesis
        by (simp add: read_pcap_def)
    next
      case (Inr b)
      from PcapReaderBind_InrD [OF Pair [unfolded Inr]] assms(3) have b: "b = ?b"
        by simp
      have g1: "grants_positive (heap_after (heap_after h1))"
      proof -
        have "h1 = heap_after (heap_after h)"
          using Pair Inr
          by (auto simp: PcapReaderBind_def duckdb_malloc_eq split: if_splits)
        with assms(1) show ?thesis
          by (simp add: grants_positive_after)
      qed
      from PcapReaderInit_in_step [OF assms(2) len assms(4) b refl, of h1]
      show ?thesis
      proof
        assume "\<exists>err h'. PcapReaderInit w h1 b = (Inl err, h') \<and>
                  PcapReaderInit ?w' h1 b = (Inl err, h')"
        with Pair Inr show ?thesis
          by (auto simp: read_pcap_def)
      next
        assume "\<exists>stn sts. PcapReaderInit w h1 b = (Inr stn, heap_after (heap_after h1)) \<and>
                    PcapReaderInit ?w' h1 b = (Inr sts, heap_after (heap_after h1)) \<and>
                    in_step (host_order w) stn sts"
        then obtain stn sts where
          i: "PcapReaderInit w h1 b = (Inr stn, heap_after (heap_after h1))"
            "PcapReaderInit ?w' h1 b = (Inr sts, heap_after (heap_after h1))"
          and R: "in_step (host_order w) stn sts"
          by blast
        from pull_all_in_step [OF refl R g1, of max_rows] Pair Inr i show ?thesis
          by (simp add: read_pcap_def)
      qed
    qed
  qed
qed

lemma ex_native_swapped:
  "byte_swap_header_and_records LittleEndian ex_native_file =
     [0xa1, 0xb2, 0xc3, 0xd4, 0, 2, 0, 4, 0, 0, 0, 0, 0, 0, 0, 0, 0, 0, 0, 4, 0, 0, 0, 1] @
     [0, 0, 0, 1, 0, 0x07, 0xA1, 0x20, 0, 0, 0, 2, 0, 0, 0, 2, 0x11, 0x12] @
     [0, 0, 0, 3, 0, 0, 0, 0, 0, 0, 0, 5, 0, 0, 0, 9, 0x31, 0x32, 0x33, 0x34, 0x35] @
     [4, 0, 0, 0, 0, 0]"
  by (simp add: byte_swap_header_and_records_def ex_native_file_def ex_header_def
      swap_file_header_def swap_record_header_def swap_records.simps slice_def load32_def)

lemma ex_native_rows:
  "read_pcap (ex_world ex_native_file) grant_all 2048 (Some ''a.pcap'') =
     Inr [\<lparr>timestamp_ns = 1500000000, original_len = 2, capture_len = 2, data = [0x11, 0x12]\<rparr>,
          \<lparr>timestamp_ns = 3000000000, original_len = 9, capture_len = 5,
            data = [0x31, 0x32, 0x33, 0x34, 0x35]\<rparr>]"
  by (simp add: read_pcap_def PcapReaderBind_def c_str_def ex_not_stdin PcapReaderInit_def
      open_input_def fopen_rb_def ex_world_def ex_native_file_def ex_header_def
      load_file_header_def load16_def negotiate_cases pull_all.simps
      PcapReaderFunction_def read_loop.simps feof_def read_packet_def fread_def
      load_packet_header_def slice_def load32_def read_payload_def grow_buffer_def
      duckdb_malloc_def Let_def timestamp_ns_of_def grant_all_def)

theorem swapped_file_decodes_identically_witness:
  "read_pcap
     ((ex_world ex_native_file)
        \<lparr>files := (files (ex_world ex_native_file))
           (c_str ''a.pcap'' \<mapsto>
              byte_swap_header_and_records (host_order (ex_world ex_native_file)) ex_native_file)\<rparr>)
     grant_all 2048 (Some ''a.pcap'')
   = Inr [\<lparr>timestamp_ns = 1500000000, original_len = 2, capture_len = 2, data = [0x11, 0x12]\<rparr>,
          \<lparr>timestamp_ns = 3000000000, original_len = 9, capture_len = 5,
            data = [0x31, 0x32, 0x33, 0x34, 0x35]\<rparr>]"
proof -
  let ?w = "ex_world ex_native_file"
  have 1: "grants_positive grant_all"
    by (simp add: grants_positive_def grant_all_def)
  have 2: "files ?w (c_str ''a.pcap'') = Some ex_native_file"
    by (simp add: ex_world_def c_str_def)
  have 4: "magic_number (load_file_header (host_order ?w) (take 24 ex_native_file))
      \<in> {0xa1b2c3d4, 0xa1b23c4d}"
    by (simp add: ex_world_def ex_native_file_def ex_header_def load_file_header_def
        slice_def load32_def)
  from swapped_file_decodes_identically [OF 1 2 ex_not_stdin 4, of 2048] ex_native_rows
  show ?thesis
    by simp
qed

end
